theory Spec2Isabelle
  imports Main "HOL-Library.Word"
begin

unbundle bit_operations_syntax

section \<open>Text and bytes\<close>

text \<open>
  The stream reader of \<^verbatim>\<open>getAiInsights\<close> (src/src/App.tsx) delivers \<^verbatim>\<open>Uint8Array\<close>
  chunks; a JavaScript string is a sequence of 16-bit UTF-16 code units.
\<close>

type_synonym byte = "8 word"
type_synonym code_unit = "16 word"
type_synonym jstr = "code_unit list"

definition ascii :: "string \<Rightarrow> jstr" where
  \<comment> \<open>an ASCII literal of the source as a JavaScript string\<close>
  "ascii s = map of_char s"

definition ascii_bytes :: "string \<Rightarrow> byte list" where
  \<comment> \<open>the UTF-8 bytes of an ASCII literal\<close>
  "ascii_bytes s = map of_char s"

section \<open>The regular expression \<^verbatim>\<open>/data:\s*({.+?})\n?/g\<close>\<close>

text \<open>
  A backtracking matcher for the fragment of ECMAScript regular expressions that the
  pattern uses. \<open>ms r (g, s)\<close> lists, in the order in which the backtracking matcher
  tries them, the ways in which \<open>r\<close> can match at the front of \<open>s\<close>: each result is the
  content of capture group 1 so far and the input that is left. The first element is the
  match that \<^verbatim>\<open>exec\<close> reports. An iteration of a quantifier that consumes nothing is
  rejected, as in the ECMAScript semantics.
\<close>

datatype rx =
    Eps
  | Chr code_unit
  | Cls "code_unit \<Rightarrow> bool"
  | Cat rx rx
  | StarG rx
  | PlusL rx
  | OptG rx
  | Grp rx

type_synonym mstate = "jstr option \<times> jstr"

function ms :: "rx \<Rightarrow> mstate \<Rightarrow> mstate list" where
  "ms Eps st = [st]"
| "ms (Chr c) st = (case snd st of [] \<Rightarrow> [] | x # xs \<Rightarrow> if x = c then [(fst st, xs)] else [])"
| "ms (Cls p) st = (case snd st of [] \<Rightarrow> [] | x # xs \<Rightarrow> if p x then [(fst st, xs)] else [])"
| "ms (Cat a b) st = concat (map (ms b) (ms a st))"
| "ms (StarG r) st =
     concat (map (\<lambda>st'. if length (snd st') < length (snd st) then ms (StarG r) st' else [])
                 (ms r st)) @ [st]"
| "ms (PlusL r) st =
     concat (map (\<lambda>st'. st' # (if length (snd st') < length (snd st) then ms (PlusL r) st' else []))
                 (ms r st))"
| "ms (OptG r) st = ms r st @ [st]"
| "ms (Grp r) st =
     map (\<lambda>st'. (Some (take (length (snd st) - length (snd st')) (snd st)), snd st')) (ms r st)"
  by pat_completeness auto
termination
  by (relation "measures [\<lambda>(r, st). size r, \<lambda>(r, st). length (snd st)]") auto

definition is_space :: "code_unit \<Rightarrow> bool" where
  \<comment> \<open>the class \<^verbatim>\<open>\s\<close>: WhiteSpace and LineTerminator code units\<close>
  "is_space c \<longleftrightarrow>
     c \<in> {0x0009, 0x000A, 0x000B, 0x000C, 0x000D, 0x0020, 0x00A0, 0x1680,
          0x2028, 0x2029, 0x202F, 0x205F, 0x3000, 0xFEFF}
     \<or> (0x2000 \<le> c \<and> c \<le> 0x200A)"

definition is_dot :: "code_unit \<Rightarrow> bool" where
  \<comment> \<open>the class \<^verbatim>\<open>.\<close> without the s flag: everything but a line terminator\<close>
  "is_dot c \<longleftrightarrow> c \<notin> {0x000A, 0x000D, 0x2028, 0x2029}"

definition lit :: "string \<Rightarrow> rx" where
  "lit s = foldr (\<lambda>c r. Cat (Chr (of_char c)) r) s Eps"

definition sse_regex :: rx where
  "sse_regex =
     Cat (lit ''data:'')
    (Cat (StarG (Cls is_space))
    (Cat (Grp (Cat (Chr 0x7B) (Cat (PlusL (Cls is_dot)) (Chr 0x7D))))
         (OptG (Chr 0x000A))))"

definition match_at :: "jstr \<Rightarrow> mstate option" where
  \<comment> \<open>the match that starts at the front of the input, if there is one\<close>
  "match_at s = (case ms sse_regex (None, s) of [] \<Rightarrow> None | m # _ \<Rightarrow> Some m)"

fun exec :: "jstr \<Rightarrow> mstate option" where
  \<comment> \<open>\<^verbatim>\<open>regex.exec(chunk)\<close> with the g flag, on the input from \<^verbatim>\<open>lastIndex\<close> on: the
      leftmost match, its capture group and the input after it (the new \<^verbatim>\<open>lastIndex\<close>)\<close>
  "exec [] = match_at []"
| "exec (c # cs) = (case match_at (c # cs) of Some m \<Rightarrow> Some m | None \<Rightarrow> exec cs)"


subsection \<open>The pattern read directly\<close>

text \<open>
  What the matcher computes for this pattern, written as a scan of the input:
  \<^verbatim>\<open>data:\<close>, then all the white space there is, then \<^verbatim>\<open>{\<close>, one character that is not
  a line terminator, the characters up to the nearest \<^verbatim>\<open>}\<close> with no line terminator
  among them, and a line feed if one follows. \<open>match_at_eq\<close> proves that the two agree.
\<close>

fun strip_prefix :: "'a list \<Rightarrow> 'a list \<Rightarrow> 'a list option" where
  "strip_prefix [] s = Some s"
| "strip_prefix (p # ps) [] = None"
| "strip_prefix (p # ps) (c # cs) = (if p = c then strip_prefix ps cs else None)"

fun upto_rbrace :: "jstr \<Rightarrow> (jstr \<times> jstr) option" where
  "upto_rbrace [] = None"
| "upto_rbrace (x # xs) =
     (if x = 0x7D then Some ([], xs)
      else if is_dot x then (case upto_rbrace xs of None \<Rightarrow> None | Some (b, r) \<Rightarrow> Some (x # b, r))
      else None)"

definition skip_nl :: "jstr \<Rightarrow> jstr" where
  "skip_nl r = (case r of [] \<Rightarrow> [] | n # r' \<Rightarrow> if n = 0x000A then r' else r)"

definition match_here :: "jstr \<Rightarrow> mstate option" where
  "match_here s =
     (case strip_prefix (ascii ''data:'') s of
        None \<Rightarrow> None
      | Some s1 \<Rightarrow>
          (case dropWhile is_space s1 of
             c # d # s3 \<Rightarrow>
               if c = 0x7B \<and> is_dot d then
                 (case upto_rbrace s3 of
                    None \<Rightarrow> None
                  | Some (b, r) \<Rightarrow> Some (Some (c # d # b @ [0x7D]), skip_nl r))
               else None
           | _ \<Rightarrow> None))"

definition first :: "'a list \<Rightarrow> 'a option" where
  "first xs = (case xs of [] \<Rightarrow> None | x # _ \<Rightarrow> Some x)"

lemma first_simps [simp]: "first [] = None" "first (x # xs) = Some x"
  by (simp_all add: first_def)

lemma first_append: "first (xs @ ys) = (case first xs of Some x \<Rightarrow> Some x | None \<Rightarrow> first ys)"
  by (cases xs) simp_all

lemma first_map: "first (map f xs) = map_option f (first xs)"
  by (cases xs) simp_all

lemma first_concat_nonempty:
  assumes "\<And>x. f x \<noteq> []"
  shows "first (concat (map f xs)) = (case first xs of None \<Rightarrow> None | Some x \<Rightarrow> first (f x))"
proof (cases xs)
  case Nil
  then show ?thesis by simp
next
  case (Cons x xs')
  with assms [of x] show ?thesis by (cases "f x") (simp_all add: first_append)
qed

lemma ms_lit: "ms (lit p) (g, s) = (case strip_prefix (ascii p) s of None \<Rightarrow> [] | Some r \<Rightarrow> [(g, r)])"
proof (induction p arbitrary: s)
  case Nil
  then show ?case by (simp add: lit_def ascii_def)
next
  case (Cons c p)
  have "lit (c # p) = Cat (Chr (of_char c)) (lit p)" by (simp add: lit_def)
  then show ?case using Cons [of "tl s"] by (cases s) (simp_all add: ascii_def)
qed

lemma ms_star_cls_Nil: "ms (StarG (Cls p)) (g, []) = [(g, [])]"
  by simp

lemma ms_star_cls_Cons:
  "ms (StarG (Cls p)) (g, x # xs) =
     (if p x then ms (StarG (Cls p)) (g, xs) @ [(g, x # xs)] else [(g, x # xs)])"
  by simp

lemma ms_plus_cls_Nil: "ms (PlusL (Cls p)) (g, []) = []"
  by simp

lemma ms_plus_cls_Cons:
  "ms (PlusL (Cls p)) (g, x # xs) = (if p x then (g, xs) # ms (PlusL (Cls p)) (g, xs) else [])"
  by simp

lemma star_space_then:
  assumes "\<And>g s'. s' = [] \<or> is_space (hd s') \<Longrightarrow> ms K (g, s') = []"
  shows "concat (map (ms K) (ms (StarG (Cls is_space)) (g, s))) = ms K (g, dropWhile is_space s)"
proof (induction s)
  case Nil
  then show ?case by simp
next
  case (Cons x xs)
  show ?case
  proof (cases "is_space x")
    case True
    then have "ms K (g, x # xs) = []" using assms [of "x # xs" g] by simp
    with True Cons show ?thesis by (simp only: ms_star_cls_Cons) simp
  next
    case False
    then show ?thesis by simp
  qed
qed

lemma upto_rbrace_split: "upto_rbrace s = Some (b, r) \<Longrightarrow> s = b @ 0x7D # r"
  by (induction s arbitrary: b) (auto split: if_splits option.splits)

lemma first_lazy_body:
  "first (concat (map (ms (Chr 0x7D)) (ms (PlusL (Cls is_dot)) (g, d # s2)))) =
     (if is_dot d then (case upto_rbrace s2 of None \<Rightarrow> None | Some (b, r) \<Rightarrow> Some (g, r)) else None)"
proof (induction s2 arbitrary: d)
  case Nil
  then show ?case by simp
next
  case (Cons x s3)
  show ?case
  proof (cases "is_dot d")
    case False
    then show ?thesis by simp
  next
    case True
    then have "concat (map (ms (Chr 0x7D)) (ms (PlusL (Cls is_dot)) (g, d # x # s3))) =
        ms (Chr 0x7D) (g, x # s3) @
        concat (map (ms (Chr 0x7D)) (ms (PlusL (Cls is_dot)) (g, x # s3)))"
      by (simp only: ms_plus_cls_Cons) simp
    then show ?thesis using True Cons [of x]
      by (auto simp add: first_append split: option.splits)
  qed
qed

lemma first_opt_nl: "first (ms (OptG (Chr 0x000A)) (g, r)) = Some (g, skip_nl r)"
  by (cases r) (simp_all add: skip_nl_def)

lemma ms_group_body:
  "ms (Cat (Chr 0x7B) (Cat (PlusL (Cls is_dot)) (Chr 0x7D))) (g, s) =
     (case s of [] \<Rightarrow> []
      | c # s' \<Rightarrow> if c = 0x7B
                 then concat (map (ms (Chr 0x7D)) (ms (PlusL (Cls is_dot)) (g, s')))
                 else [])"
  by (cases s) simp_all

definition tail_rx :: rx where
  "tail_rx = Cat (Grp (Cat (Chr 0x7B) (Cat (PlusL (Cls is_dot)) (Chr 0x7D))))
                 (OptG (Chr 0x000A))"


lemma tail_rx_no_space:
  assumes "s' = [] \<or> is_space (hd s')"
  shows "ms tail_rx (g, s') = []"
proof (cases s')
  case Nil
  then show ?thesis by (simp add: tail_rx_def)
next
  case (Cons x xs)
  with assms have "is_space x" by simp
  then have "x \<noteq> 0x7B" by (auto simp add: is_space_def)
  with Cons show ?thesis by (simp add: tail_rx_def)
qed


lemma ms_tail_rx_unfold:
  "ms tail_rx (g, s) =
     concat (map (ms (OptG (Chr 0x000A)))
       (map (\<lambda>st'. (Some (take (length s - length (snd st')) s), snd st'))
         (ms (Cat (Chr 0x7B) (Cat (PlusL (Cls is_dot)) (Chr 0x7D))) (g, s))))"
  by (simp only: tail_rx_def ms.simps(4) ms.simps(8) snd_conv)

lemma opt_nl_nonempty: "ms (OptG (Chr 0x000A)) st \<noteq> []"
  by (simp only: ms.simps(7)) simp

lemma first_tail_rx_step:
  "first (ms tail_rx (g, s)) =
      (case first (ms (Cat (Chr 0x7B) (Cat (PlusL (Cls is_dot)) (Chr 0x7D))) (g, s)) of
         None \<Rightarrow> None
       | Some m \<Rightarrow> Some (Some (take (length s - length (snd m)) s), skip_nl (snd m)))"
proof -
  let ?G = "Cat (Chr 0x7B) (Cat (PlusL (Cls is_dot)) (Chr 0x7D))"
  show ?thesis
  proof (cases "first (ms ?G (g, s))")
    case None
    then show ?thesis
      by (simp only: ms_tail_rx_unfold first_concat_nonempty [of "ms (OptG (Chr 0x000A))", OF opt_nl_nonempty]
            first_map option.map option.case)
  next
    case (Some m)
    then show ?thesis
      by (simp only: ms_tail_rx_unfold first_concat_nonempty [of "ms (OptG (Chr 0x000A))", OF opt_nl_nonempty]
            first_map option.map option.case first_opt_nl)
  qed
qed


lemma first_group_body:
  "first (ms (Cat (Chr 0x7B) (Cat (PlusL (Cls is_dot)) (Chr 0x7D))) (g, s)) =
     (case s of
        c # d # s3 \<Rightarrow>
          if c = 0x7B \<and> is_dot d then
            (case upto_rbrace s3 of None \<Rightarrow> None | Some (b, r) \<Rightarrow> Some (g, r))
          else None
      | _ \<Rightarrow> None)"
proof (cases s)
  case Nil
  then show ?thesis by (simp only: ms_group_body list.case first_simps)
next
  case s: (Cons c s')
  show ?thesis
  proof (cases s')
    case Nil
    have "ms (PlusL (Cls is_dot)) (g, []) = []" by (rule ms_plus_cls_Nil)
    then show ?thesis unfolding s Nil
      by (simp only: ms_group_body list.case list.map concat.simps first_simps if_cancel)
  next
    case (Cons d s3)
    show ?thesis unfolding s Cons
      by (simp only: ms_group_body list.case) (simp del: ms.simps add: first_lazy_body)
  qed
qed

lemma first_tail_rx:
  "first (ms tail_rx (g, s)) =
     (case s of
        c # d # s3 \<Rightarrow>
          if c = 0x7B \<and> is_dot d then
            (case upto_rbrace s3 of
               None \<Rightarrow> None
             | Some (b, r) \<Rightarrow> Some (Some (c # d # b @ [0x7D]), skip_nl r))
          else None
      | _ \<Rightarrow> None)"
proof (cases s)
  case Nil
  then show ?thesis by (simp only: first_tail_rx_step first_group_body list.case option.case)
next
  case s: (Cons c s')
  show ?thesis
  proof (cases s')
    case Nil
    then show ?thesis unfolding s by (simp only: first_tail_rx_step first_group_body list.case option.case)
  next
    case (Cons d s3)
    show ?thesis
    proof (cases "c = 0x7B \<and> is_dot d")
      case False
      then show ?thesis unfolding s Cons
        by (simp only: first_tail_rx_step first_group_body list.case) simp
    next
      case True
      show ?thesis
      proof (cases "upto_rbrace s3")
        case None
        with True show ?thesis unfolding s Cons
          by (simp only: first_tail_rx_step first_group_body list.case) simp
      next
        case (Some br)
        obtain b r where br: "br = (b, r)" by (cases br)
        have "s3 = b @ 0x7D # r"
          using Some br by (simp add: upto_rbrace_split)
        then have "c # d # s3 = (c # d # b @ [0x7D]) @ r"
          by simp
        then have tk: "take (length (c # d # s3) - length r) (c # d # s3) = c # d # b @ [0x7D]"
          by (simp only: length_append add_diff_cancel_right' append_eq_conv_conj take_all order_refl append_Nil2 take_append diff_self_eq_0 take_0)
        from True Some br tk show ?thesis unfolding s Cons
          by (simp only: first_tail_rx_step first_group_body list.case) simp
      qed
    qed
  qed
qed

lemma rx_split: "sse_regex = Cat (lit ''data:'') (Cat (StarG (Cls is_space)) tail_rx)"
  by (simp add: sse_regex_def tail_rx_def)

lemma ms_star_tail: "ms (Cat (StarG (Cls is_space)) tail_rx) (g, s1) = ms tail_rx (g, dropWhile is_space s1)"
  by (simp only: ms.simps(4) star_space_then [of tail_rx, OF tail_rx_no_space])

lemma ms_sse_regex:
  "ms sse_regex (None, s) =
      (case strip_prefix (ascii ''data:'') s of None \<Rightarrow> []
       | Some s1 \<Rightarrow> ms tail_rx (None, dropWhile is_space s1))"
proof -
  have "ms sse_regex (None, s) =
      concat (map (ms (Cat (StarG (Cls is_space)) tail_rx)) (ms (lit ''data:'') (None, s)))"
    by (simp only: rx_split ms.simps(4))
  also have "\<dots> = (case strip_prefix (ascii ''data:'') s of None \<Rightarrow> []
       | Some s1 \<Rightarrow> ms tail_rx (None, dropWhile is_space s1))"
    by (cases "strip_prefix (ascii ''data:'') s") (simp_all only: ms_lit option.case list.map concat.simps ms_star_tail append_Nil2)
  finally show ?thesis .
qed

lemma match_at_eq: "match_at s = match_here s"
proof (cases "strip_prefix (ascii ''data:'') s")
  case None
  then show ?thesis by (simp only: match_at_def ms_sse_regex match_here_def option.case list.case)
next
  case (Some s1)
  have "match_at s = first (ms tail_rx (None, dropWhile is_space s1))"
    by (simp only: match_at_def ms_sse_regex Some option.case first_def)
  then show ?thesis
    by (simp only: first_tail_rx match_here_def Some option.case)
qed


lemma strip_prefix_Some: "strip_prefix p s = Some r \<longleftrightarrow> s = p @ r"
  by (induction p s rule: strip_prefix.induct) auto

lemma upto_rbrace_body: "upto_rbrace s = Some (b, r) \<Longrightarrow> \<forall>c\<in>set b. is_dot c \<and> c \<noteq> 0x7D"
  by (induction s arbitrary: b) (auto split: if_splits option.splits)

lemma skip_nl_cases: "r = skip_nl r \<or> r = 0x000A # skip_nl r"
  by (cases r) (auto simp add: skip_nl_def)

lemma match_here_shape:
  assumes "match_here s = Some (g, r)"
  shows "\<exists>ws d b nl. s = ascii ''data:'' @ ws @ 0x7B # d # b @ 0x7D # nl @ r
           \<and> g = Some (0x7B # d # b @ [0x7D])
           \<and> (\<forall>c\<in>set ws. is_space c) \<and> is_dot d \<and> (\<forall>c\<in>set b. is_dot c \<and> c \<noteq> 0x7D)
           \<and> (nl = [] \<or> nl = [0x000A])"
proof -
  from assms obtain s1 where s1: "strip_prefix (ascii ''data:'') s = Some s1"
    by (auto simp add: match_here_def split: option.splits)
  then have s: "s = ascii ''data:'' @ s1" by (simp only: strip_prefix_Some)
  from assms s1 obtain c d s3 where dw: "dropWhile is_space s1 = c # d # s3"
    by (auto simp add: match_here_def split: list.splits)
  from assms s1 dw have cd: "c = 0x7B" "is_dot d"
    by (auto simp add: match_here_def split: if_splits)
  from assms s1 dw cd obtain b r0 where u: "upto_rbrace s3 = Some (b, r0)"
    and g: "g = Some (0x7B # d # b @ [0x7D])" and r: "r = skip_nl r0"
    by (auto simp add: match_here_def split: option.splits)
  have s3: "s3 = b @ 0x7D # r0" using u by (rule upto_rbrace_split)
  have "s1 = takeWhile is_space s1 @ dropWhile is_space s1" by simp
  then have s1': "s1 = takeWhile is_space s1 @ 0x7B # d # b @ 0x7D # r0"
    using dw cd s3 by simp
  have ws: "\<forall>c\<in>set (takeWhile is_space s1). is_space c"
    by (auto dest: set_takeWhileD)
  from skip_nl_cases [of r0] r have "r0 = [] @ r \<or> r0 = [0x000A] @ r" by auto
  then obtain nl where nl: "r0 = nl @ r" "nl = [] \<or> nl = [0x000A]" by blast
  have "s = ascii ''data:'' @ takeWhile is_space s1 @ 0x7B # d # b @ 0x7D # nl @ r"
    using s s1' nl(1) by simp
  with g ws cd(2) upto_rbrace_body [OF u] nl(2) show ?thesis by blast
qed

lemma match_at_shorter:
  assumes "match_at s = Some (g, r)"
  shows "length r < length s" and "g \<noteq> None"
proof -
  from assms have "match_here s = Some (g, r)" by (simp only: match_at_eq)
  from match_here_shape [OF this] obtain ws d b nl where
    "s = ascii ''data:'' @ ws @ 0x7B # d # b @ 0x7D # nl @ r" "g = Some (0x7B # d # b @ [0x7D])"
    by blast
  then show "length r < length s" and "g \<noteq> None" by simp_all
qed

lemma exec_suffix: "exec s = Some m \<Longrightarrow> \<exists>n\<le>length s. match_at (drop n s) = Some m"
proof (induction s)
  case Nil
  then show ?case by simp
next
  case (Cons c cs)
  show ?case
  proof (cases "match_at (c # cs)")
    case (Some m')
    with Cons.prems have "match_at (drop 0 (c # cs)) = Some m" by simp
    then show ?thesis by blast
  next
    case None
    with Cons.prems have "exec cs = Some m" by simp
    from Cons.IH [OF this] obtain n where n: "n \<le> length cs" "match_at (drop n cs) = Some m"
      by blast
    then have "Suc n \<le> length (c # cs)" "match_at (drop (Suc n) (c # cs)) = Some m" by simp_all
    then show ?thesis by blast
  qed
qed

lemma exec_shorter:
  assumes "exec s = Some (g, r)"
  shows "length r < length s" and "g \<noteq> None"
proof -
  from exec_suffix [OF assms] obtain n where
    m: "match_at (drop n s) = Some (g, r)" by blast
  from match_at_shorter [OF m] show "length r < length s" and "g \<noteq> None" by simp_all
qed

section \<open>The payload: \<^verbatim>\<open>includes\<close>, \<^verbatim>\<open>JSON.parse\<close> and the optional chain\<close>

fun includes_str :: "jstr \<Rightarrow> jstr \<Rightarrow> bool" where
  \<comment> \<open>\<^verbatim>\<open>s.includes(p)\<close>: \<open>p\<close> occurs somewhere in \<open>s\<close>\<close>
  "includes_str [] p = (p = [])"
| "includes_str (c # cs) p = (strip_prefix p (c # cs) \<noteq> None \<or> includes_str cs p)"

subsection \<open>JSON text to tokens\<close>

text \<open>
  \<^verbatim>\<open>JSON.parse\<close> is the platform's: it is modelled after the JSON grammar of ECMA-404, which
  ECMAScript adopts. Numbers keep their literal; strings are unescaped.
\<close>

datatype token =
    TLBrace | TRBrace | TLBrack | TRBrack | TColon | TComma
  | TStr jstr | TNum jstr | TTrue | TFalse | TNull

definition json_ws :: "code_unit \<Rightarrow> bool" where
  "json_ws c \<longleftrightarrow> c = 0x09 \<or> c = 0x0A \<or> c = 0x0D \<or> c = 0x20"

definition is_digit :: "code_unit \<Rightarrow> bool" where
  "is_digit c \<longleftrightarrow> 0x30 \<le> c \<and> c \<le> 0x39"

definition hex_val :: "code_unit \<Rightarrow> code_unit option" where
  "hex_val c =
     (if 0x30 \<le> c \<and> c \<le> 0x39 then Some (c - 0x30)
      else if 0x41 \<le> c \<and> c \<le> 0x46 then Some (c - 0x41 + 10)
      else if 0x61 \<le> c \<and> c \<le> 0x66 then Some (c - 0x61 + 10)
      else None)"

definition hex4 :: "code_unit \<Rightarrow> code_unit \<Rightarrow> code_unit \<Rightarrow> code_unit \<Rightarrow> code_unit option" where
  \<comment> \<open>the code unit of a \<^verbatim>\<open>\uXXXX\<close> escape\<close>
  "hex4 a b c d =
     (case (hex_val a, hex_val b, hex_val c, hex_val d) of
        (Some x, Some y, Some z, Some w) \<Rightarrow> Some (((x * 16 + y) * 16 + z) * 16 + w)
      | _ \<Rightarrow> None)"

definition unescape :: "code_unit \<Rightarrow> code_unit option" where
  \<comment> \<open>the single-character escapes: quote, backslash, slash, b, f, n, r, t\<close>
  "unescape e =
     (if e = 0x22 then Some 0x22 else if e = 0x5C then Some 0x5C else if e = 0x2F then Some 0x2F
      else if e = 0x62 then Some 0x08 else if e = 0x66 then Some 0x0C
      else if e = 0x6E then Some 0x0A else if e = 0x72 then Some 0x0D
      else if e = 0x74 then Some 0x09 else None)"

fun lex_string :: "jstr \<Rightarrow> (jstr \<times> jstr) option" where
  \<comment> \<open>the input after an opening quote: the string's value and the input after the
      closing quote\<close>
  "lex_string [] = None"
| "lex_string (c # cs) =
     (if c = 0x22 then Some ([], cs)
      else if c = 0x5C then
        (case cs of
           [] \<Rightarrow> None
         | e # cs' \<Rightarrow>
             if e = 0x75 then
               (case cs' of
                  h1 # h2 # h3 # h4 # cs'' \<Rightarrow>
                    (case hex4 h1 h2 h3 h4 of
                       None \<Rightarrow> None
                     | Some u \<Rightarrow>
                         (case lex_string cs'' of None \<Rightarrow> None | Some (t, r) \<Rightarrow> Some (u # t, r)))
                | _ \<Rightarrow> None)
             else
               (case unescape e of
                  None \<Rightarrow> None
                | Some u \<Rightarrow>
                    (case lex_string cs' of None \<Rightarrow> None | Some (t, r) \<Rightarrow> Some (u # t, r))))
      else if c < 0x20 then None
      else (case lex_string cs of None \<Rightarrow> None | Some (t, r) \<Rightarrow> Some (c # t, r)))"

definition int_part :: "jstr \<Rightarrow> (jstr \<times> jstr) option" where
  "int_part s =
     (case s of
        [] \<Rightarrow> None
      | c # r \<Rightarrow>
          if c = 0x30 then Some ([c], r)
          else if 0x31 \<le> c \<and> c \<le> 0x39 then Some (c # takeWhile is_digit r, dropWhile is_digit r)
          else None)"

definition frac_part :: "jstr \<Rightarrow> (jstr \<times> jstr) option" where
  "frac_part s =
     (case s of
        [] \<Rightarrow> Some ([], [])
      | c # r \<Rightarrow>
          if c = 0x2E then
            (if takeWhile is_digit r = [] then None
             else Some (c # takeWhile is_digit r, dropWhile is_digit r))
          else Some ([], s))"

definition exp_part :: "jstr \<Rightarrow> (jstr \<times> jstr) option" where
  "exp_part s =
     (case s of
        [] \<Rightarrow> Some ([], [])
      | c # r \<Rightarrow>
          if c = 0x65 \<or> c = 0x45 then
            (let (sg, r') = (case r of
                               [] \<Rightarrow> ([], [])
                             | d # r2 \<Rightarrow> if d = 0x2B \<or> d = 0x2D then ([d], r2) else ([], r))
             in if takeWhile is_digit r' = [] then None
                else Some (c # sg @ takeWhile is_digit r', dropWhile is_digit r'))
          else Some ([], s))"

definition lex_number :: "jstr \<Rightarrow> (jstr \<times> jstr) option" where
  \<comment> \<open>a number literal at the front of the input, and the input after it\<close>
  "lex_number s =
     (let (sg, s1) = (case s of
                        [] \<Rightarrow> ([], [])
                      | c # r \<Rightarrow> if c = 0x2D then ([c], r) else ([], s))
      in case int_part s1 of
           None \<Rightarrow> None
         | Some (ip, s2) \<Rightarrow>
             (case frac_part s2 of
                None \<Rightarrow> None
              | Some (fp, s3) \<Rightarrow>
                  (case exp_part s3 of
                     None \<Rightarrow> None
                   | Some (ep, s4) \<Rightarrow> Some (sg @ ip @ fp @ ep, s4))))"

lemma lex_string_shorter: "lex_string s = Some (t, r) \<Longrightarrow> length r < length s"
proof (induction s arbitrary: t rule: lex_string.induct)
  case 1
  then show ?case by simp
next
  case (2 c cs)
  then show ?case
    by (fastforce split: if_splits list.splits option.splits)
qed

lemma strip_prefix_length: "strip_prefix p s = Some r \<Longrightarrow> length s = length p + length r"
  by (induction p s rule: strip_prefix.induct) (auto split: if_splits)

lemma strip_ascii_shorter: "strip_prefix (ascii (a # w)) s = Some r \<Longrightarrow> length r < length s"
  by (drule strip_prefix_length) (simp add: ascii_def)

lemma int_part_shorter: "int_part s = Some (t, r) \<Longrightarrow> length r < length s"
  by (auto simp add: int_part_def less_Suc_eq_le length_dropWhile_le split: list.splits if_splits)

lemma frac_part_shorter: "frac_part s = Some (t, r) \<Longrightarrow> length r \<le> length s"
  by (auto simp add: frac_part_def le_Suc_eq length_dropWhile_le split: list.splits if_splits)

lemma exp_part_shorter: "exp_part s = Some (t, r) \<Longrightarrow> length r \<le> length s"
  by (auto simp add: exp_part_def Let_def le_SucI length_dropWhile_le
      split: list.splits if_splits prod.splits)

lemma lex_number_shorter: "lex_number s = Some (t, r) \<Longrightarrow> length r < length s"
proof -
  assume a: "lex_number s = Some (t, r)"
  obtain sg s1 where sg: "(case s of [] \<Rightarrow> ([], []) | c # r \<Rightarrow> if c = 0x2D then ([c], r) else ([], s)) = (sg, s1)"
    by (cases "(case s of [] \<Rightarrow> ([], []) | c # r \<Rightarrow> if c = 0x2D then ([c], r) else ([]::jstr, s))") auto
  then have s1: "length s1 \<le> length s"
    by (auto split: list.splits if_splits)
  from a sg obtain ip s2 fp s3 ep where
    i: "int_part s1 = Some (ip, s2)" and f: "frac_part s2 = Some (fp, s3)"
    and e: "exp_part s3 = Some (ep, r)"
    by (auto simp add: lex_number_def split: option.splits)
  from int_part_shorter [OF i] frac_part_shorter [OF f] exp_part_shorter [OF e] s1
  show ?thesis by linarith
qed

function lex :: "jstr \<Rightarrow> token list option" where
  "lex [] = Some []"
| "lex (c # cs) =
     (if json_ws c then lex cs
      else if c = 0x7B then map_option (Cons TLBrace) (lex cs)
      else if c = 0x7D then map_option (Cons TRBrace) (lex cs)
      else if c = 0x5B then map_option (Cons TLBrack) (lex cs)
      else if c = 0x5D then map_option (Cons TRBrack) (lex cs)
      else if c = 0x3A then map_option (Cons TColon) (lex cs)
      else if c = 0x2C then map_option (Cons TComma) (lex cs)
      else if c = 0x22 then
        (case lex_string cs of None \<Rightarrow> None | Some (t, r) \<Rightarrow> map_option (Cons (TStr t)) (lex r))
      else if c = 0x2D \<or> is_digit c then
        (case lex_number (c # cs) of
           None \<Rightarrow> None
         | Some (n, r) \<Rightarrow> map_option (Cons (TNum n)) (lex r))
      else
        (case strip_prefix (ascii ''true'') (c # cs) of
           Some r \<Rightarrow> map_option (Cons TTrue) (lex r)
         | None \<Rightarrow>
             (case strip_prefix (ascii ''false'') (c # cs) of
                Some r \<Rightarrow> map_option (Cons TFalse) (lex r)
              | None \<Rightarrow>
                  (case strip_prefix (ascii ''null'') (c # cs) of
                     Some r \<Rightarrow> map_option (Cons TNull) (lex r)
                   | None \<Rightarrow> None))))"
  by pat_completeness auto
termination
proof (relation "measure length")
  show "wf (measure length)" by simp
qed (auto dest: lex_string_shorter lex_number_shorter strip_ascii_shorter
      simp del: strip_prefix.simps)


subsection \<open>Tokens to a JSON value\<close>

datatype json =
    JNull
  | JBool bool
  | JNumber jstr
  | JString jstr
  | JArray "json list"
  | JObject "(jstr \<times> json) list"

text \<open>
  The grammar's value, the elements of an array after its bracket and the members of an
  object after its brace. The test \<open>length r' < length ts\<close> before a recursive call on the
  rest of the input always holds (\<open>pvalue_shorter\<close> below); it is there for termination.
\<close>

function pvalue :: "token list \<Rightarrow> (json \<times> token list) option"
  and pelems :: "token list \<Rightarrow> (json list \<times> token list) option"
  and pmembers :: "token list \<Rightarrow> ((jstr \<times> json) list \<times> token list) option" where
  "pvalue [] = None"
| "pvalue (t # ts) =
     (case t of
        TNull \<Rightarrow> Some (JNull, ts)
      | TTrue \<Rightarrow> Some (JBool True, ts)
      | TFalse \<Rightarrow> Some (JBool False, ts)
      | TNum n \<Rightarrow> Some (JNumber n, ts)
      | TStr s \<Rightarrow> Some (JString s, ts)
      | TLBrack \<Rightarrow>
          (case ts of
             TRBrack # r \<Rightarrow> Some (JArray [], r)
           | _ \<Rightarrow> (case pelems ts of None \<Rightarrow> None | Some (vs, r) \<Rightarrow> Some (JArray vs, r)))
      | TLBrace \<Rightarrow>
          (case ts of
             TRBrace # r \<Rightarrow> Some (JObject [], r)
           | _ \<Rightarrow> (case pmembers ts of None \<Rightarrow> None | Some (kvs, r) \<Rightarrow> Some (JObject kvs, r)))
      | _ \<Rightarrow> None)"
| "pelems ts =
     (case pvalue ts of
        None \<Rightarrow> None
      | Some (v, r) \<Rightarrow>
          (case r of
             TComma # r' \<Rightarrow>
               if length r' < length ts then
                 (case pelems r' of None \<Rightarrow> None | Some (vs, r'') \<Rightarrow> Some (v # vs, r''))
               else None
           | TRBrack # r' \<Rightarrow> Some ([v], r')
           | _ \<Rightarrow> None))"
| "pmembers [] = None"
| "pmembers (t # ts) =
     (case (t, ts) of
        (TStr k, TColon # ts') \<Rightarrow>
          (case pvalue ts' of
             None \<Rightarrow> None
           | Some (v, r) \<Rightarrow>
               (case r of
                  TComma # r' \<Rightarrow>
                    if length r' < length ts then
                      (case pmembers r' of None \<Rightarrow> None | Some (kvs, r'') \<Rightarrow> Some ((k, v) # kvs, r''))
                    else None
                | TRBrace # r' \<Rightarrow> Some ([(k, v)], r')
                | _ \<Rightarrow> None))
      | _ \<Rightarrow> None)"
  by pat_completeness auto
termination
  by (relation "measures [\<lambda>x. case x of Inl ts \<Rightarrow> length ts | Inr (Inl ts) \<Rightarrow> length ts
                                         | Inr (Inr ts) \<Rightarrow> length ts,
                          \<lambda>x. case x of Inl ts \<Rightarrow> 0 | Inr y \<Rightarrow> 1]") auto

definition JSON_parse :: "jstr \<Rightarrow> json option" where
  \<comment> \<open>\<^verbatim>\<open>JSON.parse(jsonStr)\<close>; \<open>None\<close> is the SyntaxError\<close>
  "JSON_parse s =
     (case lex s of
        None \<Rightarrow> None
      | Some ts \<Rightarrow> (case pvalue ts of Some (v, []) \<Rightarrow> Some v | _ \<Rightarrow> None))"

subsection \<open>\<^verbatim>\<open>parsed.choices?.[0]?.delta?.content || ""\<close>\<close>

definition own_prop :: "(jstr \<times> json) list \<Rightarrow> jstr \<Rightarrow> json option" where
  \<comment> \<open>the value of a key of a parsed object: of a repeated key the last one stays\<close>
  "own_prop kvs k = map_of (rev kvs) k"

fun get_member :: "jstr \<Rightarrow> json \<Rightarrow> json option" where
  \<comment> \<open>\<^verbatim>\<open>v.name\<close> for the names \<^verbatim>\<open>choices\<close>, \<^verbatim>\<open>delta\<close> and \<^verbatim>\<open>content\<close>, which no
      built-in prototype defines; \<open>None\<close> is \<^verbatim>\<open>undefined\<close>\<close>
  "get_member name (JObject kvs) = own_prop kvs name"
| "get_member name _ = None"

fun get_index0 :: "json \<Rightarrow> json option" where
  \<comment> \<open>\<^verbatim>\<open>v[0]\<close>: the key \<^verbatim>\<open>"0"\<close> of an object, the first element of an array, the
      first code unit of a string\<close>
  "get_index0 (JObject kvs) = own_prop kvs (ascii ''0'')"
| "get_index0 (JArray vs) = (case vs of [] \<Rightarrow> None | v # _ \<Rightarrow> Some v)"
| "get_index0 (JString s) = (case s of [] \<Rightarrow> None | c # _ \<Rightarrow> Some (JString [c]))"
| "get_index0 _ = None"

fun opt_chain :: "json option \<Rightarrow> (json \<Rightarrow> json option) \<Rightarrow> json option" where
  \<comment> \<open>\<^verbatim>\<open>base?.access\<close>: \<^verbatim>\<open>undefined\<close> when the base is \<^verbatim>\<open>undefined\<close> or \<^verbatim>\<open>null\<close>\<close>
  "opt_chain None f = None"
| "opt_chain (Some JNull) f = None"
| "opt_chain (Some v) f = f v"

definition content_of :: "json \<Rightarrow> json option option" where
  \<comment> \<open>\<^verbatim>\<open>parsed.choices?.[0]?.delta?.content\<close>; the outer \<open>None\<close> is the TypeError of
      reading \<^verbatim>\<open>choices\<close> of \<^verbatim>\<open>null\<close>\<close>
  "content_of parsed =
     (if parsed = JNull then None
      else Some (opt_chain (opt_chain (opt_chain (get_member (ascii ''choices'') parsed) get_index0)
                                      (get_member (ascii ''delta'')))
                           (get_member (ascii ''content''))))"

text \<open>
  A JSON number becomes an IEEE double and is printed by \<^verbatim>\<open>Number::toString\<close>. The
  composition of the two, from the literal to the printed text, is the parameter \<open>ns\<close> of
  everything below; a number is falsy exactly when it prints as \<^verbatim>\<open>0\<close>.
\<close>

fun truthy :: "(jstr \<Rightarrow> jstr) \<Rightarrow> json \<Rightarrow> bool" where
  "truthy ns JNull = False"
| "truthy ns (JBool b) = b"
| "truthy ns (JNumber n) = (ns n \<noteq> ascii ''0'')"
| "truthy ns (JString s) = (s \<noteq> [])"
| "truthy ns (JArray vs) = True"
| "truthy ns (JObject kvs) = True"

definition or_empty :: "(jstr \<Rightarrow> jstr) \<Rightarrow> json option \<Rightarrow> json" where
  \<comment> \<open>\<^verbatim>\<open>content || ""\<close>\<close>
  "or_empty ns c = (case c of None \<Rightarrow> JString [] | Some v \<Rightarrow> if truthy ns v then v else JString [])"

fun join_opt :: "jstr option list \<Rightarrow> jstr option" where
  \<comment> \<open>\<^verbatim>\<open>Array.prototype.join\<close> with the separator \<^verbatim>\<open>,\<close>; \<open>None\<close> when an element threw\<close>
  "join_opt [] = Some []"
| "join_opt [x] = x"
| "join_opt (x # y # ys) =
     (case x of
        None \<Rightarrow> None
      | Some t \<Rightarrow> (case join_opt (y # ys) of None \<Rightarrow> None | Some u \<Rightarrow> Some (t @ 0x2C # u)))"

fun to_text :: "(jstr \<Rightarrow> jstr) \<Rightarrow> json \<Rightarrow> jstr option" where
  \<comment> \<open>the string that \<^verbatim>\<open>cleanText += content\<close> appends; \<open>None\<close> is the TypeError of an
      object whose own \<^verbatim>\<open>toString\<close> is not callable\<close>
  "to_text ns JNull = Some (ascii ''null'')"
| "to_text ns (JBool b) = Some (if b then ascii ''true'' else ascii ''false'')"
| "to_text ns (JNumber n) = Some (ns n)"
| "to_text ns (JString s) = Some s"
| "to_text ns (JArray vs) =
     join_opt (map (\<lambda>v. if v = JNull then Some [] else to_text ns v) vs)"
| "to_text ns (JObject kvs) =
     (if own_prop kvs (ascii ''toString'') \<noteq> None then None else Some (ascii ''[object Object]''))"

definition interpret_payload :: "(jstr \<Rightarrow> jstr) \<Rightarrow> jstr \<Rightarrow> jstr" where
  \<comment> \<open>what the \<^verbatim>\<open>try\<close>/\<^verbatim>\<open>catch\<close> of the loop body appends to \<^verbatim>\<open>cleanText\<close>: the
      parsed content, or the raw \<^verbatim>\<open>jsonStr\<close> when anything in the \<^verbatim>\<open>try\<close> threw\<close>
  "interpret_payload ns jsonStr =
     (case JSON_parse jsonStr of
        None \<Rightarrow> jsonStr
      | Some parsed \<Rightarrow>
          (case content_of parsed of
             None \<Rightarrow> jsonStr
           | Some content \<Rightarrow>
               (case to_text ns (or_empty ns content) of
                  None \<Rightarrow> jsonStr
                | Some t \<Rightarrow> t)))"


section \<open>\<^verbatim>\<open>new TextDecoder()\<close> and \<^verbatim>\<open>decoder.decode(value)\<close>\<close>

text \<open>
  The platform's UTF-8 decoder, after the WHATWG Encoding standard: the state of the
  decoder, its handler for one byte, and the end of the input. The source calls
  \<^verbatim>\<open>decode(value)\<close> without \<^verbatim>\<open>{stream: true}\<close>, so every call starts from the initial state,
  flushes at the end of its chunk, and drops a byte order mark at the front of its output.
\<close>

record utf8_state =
  code_point :: nat
  bytes_seen :: nat
  bytes_needed :: nat
  lower_boundary :: byte
  upper_boundary :: byte

definition utf8_init :: utf8_state where
  "utf8_init = \<lparr>code_point = 0, bytes_seen = 0, bytes_needed = 0,
                lower_boundary = 0x80, upper_boundary = 0xBF\<rparr>"

definition utf8_lead :: "byte \<Rightarrow> utf8_state \<times> nat list" where
  \<comment> \<open>the handler when no bytes are needed: the new state and the code points emitted\<close>
  "utf8_lead b =
     (if b \<le> 0x7F then (utf8_init, [unat b])
      else if 0xC2 \<le> b \<and> b \<le> 0xDF then
        (utf8_init\<lparr>bytes_needed := 1, code_point := unat (b AND 0x1F)\<rparr>, [])
      else if 0xE0 \<le> b \<and> b \<le> 0xEF then
        (utf8_init\<lparr>bytes_needed := 2, code_point := unat (b AND 0x0F),
                    lower_boundary := (if b = 0xE0 then 0xA0 else 0x80),
                    upper_boundary := (if b = 0xED then 0x9F else 0xBF)\<rparr>, [])
      else if 0xF0 \<le> b \<and> b \<le> 0xF4 then
        (utf8_init\<lparr>bytes_needed := 3, code_point := unat (b AND 0x07),
                    lower_boundary := (if b = 0xF0 then 0x90 else 0x80),
                    upper_boundary := (if b = 0xF4 then 0x8F else 0xBF)\<rparr>, [])
      else (utf8_init, [0xFFFD]))"

definition utf8_handler :: "utf8_state \<Rightarrow> byte \<Rightarrow> utf8_state \<times> nat list" where
  "utf8_handler st b =
     (if bytes_needed st = 0 then utf8_lead b
      else if b < lower_boundary st \<or> upper_boundary st < b then
        (let (st', out) = utf8_lead b in (st', 0xFFFD # out))
      else
        (let cp = code_point st * 64 + unat (b AND 0x3F) in
         if bytes_seen st + 1 = bytes_needed st then (utf8_init, [cp])
         else (st\<lparr>code_point := cp, bytes_seen := bytes_seen st + 1,
                  lower_boundary := 0x80, upper_boundary := 0xBF\<rparr>, [])))"

fun utf8_run :: "utf8_state \<Rightarrow> byte list \<Rightarrow> nat list" where
  \<comment> \<open>the code points of a whole input; a sequence cut off by the end of the input is
      the replacement character U+FFFD\<close>
  "utf8_run st [] = (if bytes_needed st \<noteq> 0 then [0xFFFD] else [])"
| "utf8_run st (b # bs) = (let (st', out) = utf8_handler st b in out @ utf8_run st' bs)"

definition strip_bom :: "nat list \<Rightarrow> nat list" where
  "strip_bom cps = (case cps of [] \<Rightarrow> [] | c # r \<Rightarrow> if c = 0xFEFF then r else cps)"

definition utf16 :: "nat \<Rightarrow> jstr" where
  \<comment> \<open>the code units of a code point in a JavaScript string\<close>
  "utf16 cp =
     (if cp < 0x10000 then [of_nat cp]
      else [of_nat (0xD800 + (cp - 0x10000) div 0x400), of_nat (0xDC00 + (cp - 0x10000) mod 0x400)])"

definition decode :: "byte list \<Rightarrow> jstr" where
  "decode bytes = concat (map utf16 (strip_bom (utf8_run utf8_init bytes)))"

section \<open>\<^verbatim>\<open>getAiInsights\<close>\<close>

datatype js_error = JsError (err_name: jstr) (err_message: jstr)

definition err_to_string :: "js_error \<Rightarrow> jstr" where
  \<comment> \<open>\<^verbatim>\<open>"" + err\<close>, that is \<^verbatim>\<open>Error.prototype.toString\<close>\<close>
  "err_to_string e =
     (if err_name e = [] then err_message e
      else if err_message e = [] then err_name e
      else err_name e @ ascii '': '' @ err_message e)"

definition new_Error :: "string \<Rightarrow> js_error" where
  "new_Error msg = JsError (ascii ''Error'') (ascii msg)"

definition DONE :: jstr where
  "DONE = ascii ''[DONE]''"

text \<open>
  The inner loop \<^verbatim>\<open>while ((match = regex.exec(chunk)) !== null)\<close>, on the part of the
  chunk from \<^verbatim>\<open>lastIndex\<close> on and the \<^verbatim>\<open>cleanText\<close> so far. A match whose group 1 is
  \<^verbatim>\<open>undefined\<close> would make \<^verbatim>\<open>jsonStr.includes\<close> throw a TypeError out of the loop (its
  message depends on the engine).
\<close>

function scan :: "(jstr \<Rightarrow> jstr) \<Rightarrow> jstr \<Rightarrow> jstr \<Rightarrow> js_error + jstr" where
  "scan ns s cleanText =
     (case exec s of
        None \<Rightarrow> Inr cleanText
      | Some (None, rest) \<Rightarrow> Inl (JsError (ascii ''TypeError'') (ascii ''jsonStr is undefined''))
      | Some (Some jsonStr, rest) \<Rightarrow>
          if includes_str jsonStr DONE then scan ns rest cleanText
          else scan ns rest (cleanText @ interpret_payload ns jsonStr))"
  by pat_completeness auto
termination
  by (relation "measure (\<lambda>(ns, s, cleanText). length s)") (auto dest: exec_shorter(1))

declare scan.simps [simp del]

definition on_chunk :: "(jstr \<Rightarrow> jstr) \<Rightarrow> jstr \<Rightarrow> byte list \<Rightarrow> js_error + jstr" where
  \<comment> \<open>the body of the read loop for one \<^verbatim>\<open>value\<close>: the new \<^verbatim>\<open>insight\<close>\<close>
  "on_chunk ns insight val =
     (let chunk = decode val in
      case scan ns chunk [] of
        Inl e \<Rightarrow> Inl e
      | Inr cleanText \<Rightarrow> Inr (insight @ cleanText))"

fun read_loop :: "(jstr \<Rightarrow> jstr) \<Rightarrow> jstr \<Rightarrow> byte list list \<Rightarrow> js_error option \<Rightarrow> js_error + jstr" where
  \<comment> \<open>\<^verbatim>\<open>while (true) { const {done, value} = await reader.read(); if (done) break; ... }\<close>
      over the chunks that the reader delivers; after them the reader reports \<^verbatim>\<open>done\<close>
      (\<open>None\<close>) or a read rejects (\<open>Some e\<close>)\<close>
  "read_loop ns insight [] ending = (case ending of None \<Rightarrow> Inr insight | Some e \<Rightarrow> Inl e)"
| "read_loop ns insight (v # vs) ending =
     (case on_chunk ns insight v of
        Inl e \<Rightarrow> Inl e
      | Inr insight' \<Rightarrow> read_loop ns insight' vs ending)"

datatype body = Body "byte list list" "js_error option"

datatype fetched =
    Rejected js_error
  | Response bool "body option"

definition try_block :: "(jstr \<Rightarrow> jstr) \<Rightarrow> fetched \<Rightarrow> js_error + jstr" where
  \<comment> \<open>the \<^verbatim>\<open>try\<close> block, after \<^verbatim>\<open>setInsight("")\<close>: the error thrown, or the last
      \<^verbatim>\<open>insight\<close>\<close>
  "try_block ns f =
     (case f of
        Rejected e \<Rightarrow> Inl e
      | Response response_ok b \<Rightarrow>
          if \<not> response_ok then Inl (new_Error ''Backend unreachable'')
          else
            (case b of
               None \<Rightarrow> Inl (new_Error ''ReadableStream not yet supported or empty response'')
             | Some (Body chunks ending) \<Rightarrow> read_loop ns [] chunks ending))"

record ui =
  insight :: jstr
  loading :: bool

definition getAiInsights :: "(jstr \<Rightarrow> jstr) \<Rightarrow> fetched \<Rightarrow> ui" where
  \<comment> \<open>the component's state when the function has returned\<close>
  "getAiInsights ns f =
     (case try_block ns f of
        Inr text \<Rightarrow> \<lparr>insight = text, loading = False\<rparr>
      | Inl err \<Rightarrow> \<lparr>insight = ascii ''Error: '' @ err_to_string err, loading = False\<rparr>)"

datatype session_state = OPEN | CLOSED | FAILED js_error

definition terminal_state :: "(jstr \<Rightarrow> jstr) \<Rightarrow> fetched \<Rightarrow> session_state" where
  \<comment> \<open>how the function left its \<^verbatim>\<open>try\<close> block: by \<^verbatim>\<open>break\<close> on \<^verbatim>\<open>done\<close>, or through
      \<^verbatim>\<open>catch\<close>\<close>
  "terminal_state ns f = (case try_block ns f of Inr text \<Rightarrow> CLOSED | Inl err \<Rightarrow> FAILED err)"


section \<open>Properties\<close>

subsection \<open>Decoding ASCII\<close>

lemma utf8_lead_ascii: "b \<le> 0x7F \<Longrightarrow> utf8_lead b = (utf8_init, [unat b])"
  by (simp add: utf8_lead_def)

lemma utf8_handler_init: "utf8_handler utf8_init b = utf8_lead b"
  by (simp add: utf8_handler_def utf8_init_def)

lemma utf8_run_ascii: "\<forall>b\<in>set bs. b \<le> 0x7F \<Longrightarrow> utf8_run utf8_init bs = map unat bs"
proof (induction bs)
  case Nil
  then show ?case by (simp add: utf8_init_def)
next
  case (Cons b bs)
  then show ?case by (simp add: utf8_handler_init utf8_lead_ascii)
qed

lemma unat_of_char: "unat (of_char c :: byte) = of_char c"
proof -
  have "unat (of_nat (of_char c) :: byte) = of_char c mod 256"
    by (simp add: unat_of_nat)
  then show ?thesis by (simp add: of_nat_of_char)
qed

lemma of_char_byte_le: "(of_char c :: byte) \<le> 0x7F \<longleftrightarrow> (of_char c :: nat) < 128"
proof -
  have "(of_char c :: byte) \<le> 0x7F \<longleftrightarrow> unat (of_char c :: byte) \<le> unat (0x7F :: byte)"
    by (rule word_le_nat_alt)
  also have "\<dots> \<longleftrightarrow> (of_char c :: nat) \<le> 127"
    by (simp only: unat_of_char) simp
  also have "\<dots> \<longleftrightarrow> (of_char c :: nat) < 128"
    by linarith
  finally show ?thesis .
qed

definition is_ascii :: "string \<Rightarrow> bool" where
  "is_ascii s \<longleftrightarrow> list_all (\<lambda>c. (of_char c :: nat) < 128) s"

lemma utf16_of_char: "utf16 (of_char c) = [of_char c]"
proof -
  have "(of_char c :: nat) < 256" by (rule nat_of_char_less_256)
  then have "(of_char c :: nat) < 0x10000" by linarith
  then show ?thesis by (simp only: utf16_def of_nat_of_char if_True)
qed

lemma concat_utf16_chars: "concat (map utf16 (map of_char s)) = map of_char s"
  by (induction s) (simp_all add: utf16_of_char)

lemma decode_ascii: "is_ascii s \<Longrightarrow> decode (ascii_bytes s) = ascii s"
proof -
  assume a: "is_ascii s"
  then have "\<forall>b\<in>set (ascii_bytes s). b \<le> 0x7F"
    by (auto simp add: is_ascii_def list_all_iff ascii_bytes_def of_char_byte_le)
  then have run: "utf8_run utf8_init (ascii_bytes s) = map of_char s"
    by (simp add: utf8_run_ascii) (simp add: ascii_bytes_def unat_of_char)
  have "strip_bom (map of_char s) = map of_char s"
  proof (cases s)
    case Nil
    then show ?thesis by (simp add: strip_bom_def)
  next
    case (Cons c cs)
    with a have "(of_char c :: nat) < 128" by (simp add: is_ascii_def)
    then have "(of_char c :: nat) \<noteq> 0xFEFF" by simp
    with Cons show ?thesis by (simp add: strip_bom_def)
  qed
  with run show ?thesis by (simp only: decode_def concat_utf16_chars ascii_def)
qed


subsection \<open>The inner loop\<close>

text \<open>
  The values that \<^verbatim>\<open>match[1]\<close> takes over the inner loop: the frames of a chunk.
\<close>

function frames :: "jstr \<Rightarrow> jstr list" where
  "frames s =
     (case exec s of
        None \<Rightarrow> []
      | Some (None, rest) \<Rightarrow> []
      | Some (Some jsonStr, rest) \<Rightarrow> jsonStr # frames rest)"
  by pat_completeness auto
termination
  by (relation "measure length") (auto dest: exec_shorter(1))

declare frames.simps [simp del]

definition deltas :: "(jstr \<Rightarrow> jstr) \<Rightarrow> jstr list \<Rightarrow> jstr list" where
  \<comment> \<open>what a list of frames appends, frame by frame\<close>
  "deltas ns fs = map (interpret_payload ns) (filter (\<lambda>j. \<not> includes_str j DONE) fs)"

lemma exec_group: "exec s = Some (g, rest) \<Longrightarrow> \<exists>j. g = Some j"
  using exec_shorter(2) [of s g rest] by auto

lemma scan_no_match: "exec s = None \<Longrightarrow> scan ns s acc = Inr acc"
  by (subst scan.simps) simp

lemma scan_match:
  "exec s = Some (Some j, rest) \<Longrightarrow>
     scan ns s acc = (if includes_str j DONE then scan ns rest acc
                      else scan ns rest (acc @ interpret_payload ns j))"
  by (subst scan.simps) simp

lemma frames_no_match: "exec s = None \<Longrightarrow> frames s = []"
  by (subst frames.simps) simp

lemma frames_match: "exec s = Some (Some j, rest) \<Longrightarrow> frames s = j # frames rest"
  by (subst frames.simps) simp

lemma scan_eq: "scan ns s acc = Inr (acc @ concat (deltas ns (frames s)))"
proof (induction s arbitrary: acc rule: length_induct)
  case (1 s)
  show ?case
  proof (cases "exec s")
    case None
    then show ?thesis by (simp add: scan_no_match frames_no_match deltas_def)
  next
    case (Some m)
    obtain g rest where m: "m = (g, rest)" by (cases m)
    with Some exec_group obtain j where g: "g = Some j" by blast
    from Some m g have e: "exec s = Some (Some j, rest)" by simp
    from exec_shorter(1) Some m have "length rest < length s" by blast
    with 1 have ih: "scan ns rest acc' = Inr (acc' @ concat (deltas ns (frames rest)))" for acc'
      by blast
    show ?thesis
      by (simp add: scan_match [OF e] frames_match [OF e] ih deltas_def)
  qed
qed

lemma on_chunk_eq: "on_chunk ns ins v = Inr (ins @ concat (deltas ns (frames (decode v))))"
  by (simp add: on_chunk_def scan_eq)

lemma read_loop_eq:
  "read_loop ns ins chunks None =
     Inr (ins @ concat (map (\<lambda>v. concat (deltas ns (frames (decode v)))) chunks))"
  by (induction chunks arbitrary: ins) (simp_all add: on_chunk_eq)

subsection \<open>What a frame is\<close>

lemma exec_shape:
  assumes "exec s = Some (g, rest)"
  shows "\<exists>pre ws d b nl. s = pre @ ascii ''data:'' @ ws @ 0x7B # d # b @ 0x7D # nl @ rest
           \<and> g = Some (0x7B # d # b @ [0x7D])
           \<and> (\<forall>c\<in>set ws. is_space c) \<and> is_dot d \<and> (\<forall>c\<in>set b. is_dot c \<and> c \<noteq> 0x7D)
           \<and> (nl = [] \<or> nl = [0x000A])"
proof -
  from exec_suffix [OF assms] obtain n where n: "match_at (drop n s) = Some (g, rest)" by blast
  then have "match_here (drop n s) = Some (g, rest)" by (simp only: match_at_eq)
  from match_here_shape [OF this] obtain ws d b nl where
    sh: "drop n s = ascii ''data:'' @ ws @ 0x7B # d # b @ 0x7D # nl @ rest"
    and r: "g = Some (0x7B # d # b @ [0x7D])" "\<forall>c\<in>set ws. is_space c" "is_dot d"
       "\<forall>c\<in>set b. is_dot c \<and> c \<noteq> 0x7D" "nl = [] \<or> nl = [0x000A]"
    by blast
  have "s = take n s @ drop n s" by simp
  with sh have "s = take n s @ ascii ''data:'' @ ws @ 0x7B # d # b @ 0x7D # nl @ rest" by simp
  with r show ?thesis by blast
qed

lemma no_brace_no_match:
  assumes "0x7B \<notin> set s \<or> 0x7D \<notin> set s"
  shows "exec s = None"
proof (cases "exec s")
  case None
  then show ?thesis .
next
  case (Some m)
  obtain g rest where "m = (g, rest)" by (cases m)
  with Some exec_shape obtain pre ws d b nl where
    "s = pre @ ascii ''data:'' @ ws @ 0x7B # d # b @ 0x7D # nl @ rest" by blast
  then have "0x7B \<in> set s" "0x7D \<in> set s" by simp_all
  with assms show ?thesis by blast
qed

lemma includes_str_iff: "includes_str s p \<longleftrightarrow> (\<exists>u v. s = u @ p @ v)"
proof (induction s)
  case Nil
  then show ?case by auto
next
  case (Cons c cs)
  show ?case
  proof
    assume "includes_str (c # cs) p"
    then consider r where "strip_prefix p (c # cs) = Some r" | "includes_str cs p" by auto
    then show "\<exists>u v. c # cs = u @ p @ v"
    proof cases
      case 1
      then have "c # cs = [] @ p @ r" by (simp add: strip_prefix_Some)
      then show ?thesis by blast
    next
      case 2
      with Cons obtain u v where "cs = u @ p @ v" by blast
      then have "c # cs = (c # u) @ p @ v" by simp
      then show ?thesis by blast
    qed
  next
    assume "\<exists>u v. c # cs = u @ p @ v"
    then obtain u v where uv: "c # cs = u @ p @ v" by blast
    show "includes_str (c # cs) p"
    proof (cases u)
      case Nil
      with uv have "strip_prefix p (c # cs) = Some v" by (simp add: strip_prefix_Some)
      then show ?thesis by simp
    next
      case (Cons a u')
      with uv have "cs = u' @ p @ v" by simp
      with Cons.IH have "includes_str cs p" by blast
      then show ?thesis by simp
    qed
  qed
qed

text \<open>
  Claim C10. A frame is recognised only where \<^verbatim>\<open>data:\<close> and optional white space are
  followed by an opening brace and, later in the same chunk, a closing brace. A chunk
  without a brace, such as the bare line \<^verbatim>\<open>data: [DONE]\<close> or a plain-text payload,
  yields no frame and appends nothing, so its payload never reaches the sentinel test;
  and that test is substring containment of \<^verbatim>\<open>[DONE]\<close>.
\<close>

theorem braced_frames_only:
  "(exec s = Some (g, rest) \<longrightarrow>
      (\<exists>pre ws d b nl. s = pre @ ascii ''data:'' @ ws @ 0x7B # d # b @ 0x7D # nl @ rest
         \<and> g = Some (0x7B # d # b @ [0x7D]) \<and> (\<forall>c\<in>set ws. is_space c)
         \<and> (nl = [] \<or> nl = [0x000A])))
   \<and> (0x7B \<notin> set s \<or> 0x7D \<notin> set s \<longrightarrow> frames s = [] \<and> scan ns s acc = Inr acc)
   \<and> (includes_str j DONE \<longleftrightarrow> (\<exists>u v. j = u @ DONE @ v))"
proof (intro conjI impI)
  assume "exec s = Some (g, rest)"
  from exec_shape [OF this]
  show "\<exists>pre ws d b nl. s = pre @ ascii ''data:'' @ ws @ 0x7B # d # b @ 0x7D # nl @ rest
         \<and> g = Some (0x7B # d # b @ [0x7D]) \<and> (\<forall>c\<in>set ws. is_space c)
         \<and> (nl = [] \<or> nl = [0x000A])"
    by blast
next
  assume a: "0x7B \<notin> set s \<or> 0x7D \<notin> set s"
  then show "frames s = []" by (simp add: no_brace_no_match frames_no_match)
  from a show "scan ns s acc = Inr acc" by (simp add: no_brace_no_match scan_no_match)
next
  show "includes_str j DONE \<longleftrightarrow> (\<exists>u v. j = u @ DONE @ v)" by (rule includes_str_iff)
qed


subsection \<open>A session that ends normally\<close>

text \<open>
  A response with \<^verbatim>\<open>ok\<close> set whose body delivers the given chunks and then \<^verbatim>\<open>done\<close>.
\<close>

definition stream_ok :: "byte list list \<Rightarrow> fetched" where
  "stream_ok chunks = Response True (Some (Body chunks None))"

lemma try_block_stream_ok:
  "try_block ns (stream_ok chunks) =
     Inr (concat (map (\<lambda>v. concat (deltas ns (frames (decode v)))) chunks))"
  by (simp add: try_block_def stream_ok_def read_loop_eq)

lemma getAiInsights_stream_ok:
  "getAiInsights ns (stream_ok chunks) =
     \<lparr>insight = concat (map (\<lambda>v. concat (deltas ns (frames (decode v)))) chunks), loading = False\<rparr>"
  by (simp add: getAiInsights_def try_block_stream_ok)

lemma terminal_state_stream_ok: "terminal_state ns (stream_ok chunks) = CLOSED"
  by (simp add: terminal_state_def try_block_stream_ok)

lemma deltas_append: "deltas ns (fs1 @ fs2) = deltas ns fs1 @ deltas ns fs2"
  by (simp add: deltas_def)

lemma deltas_concat: "concat (deltas ns (concat fss)) = concat (map (\<lambda>fs. concat (deltas ns fs)) fss)"
  by (induction fss) (simp_all add: deltas_append deltas_def)

theorem braced_frames_only_witness:
  "exec (ascii ''data: {[DONE]}\<newline>xyz'') = Some (Some (ascii ''{[DONE]}''), ascii ''xyz'')
   \<and> (\<exists>pre ws d b nl. ascii ''data: {[DONE]}\<newline>xyz'' =
          pre @ ascii ''data:'' @ ws @ 0x7B # d # b @ 0x7D # nl @ ascii ''xyz'')
   \<and> includes_str (ascii ''{[DONE]}'') DONE
   \<and> (\<exists>u v. ascii ''{[DONE]}'' = u @ DONE @ v)
   \<and> 0x7B \<notin> set (ascii ''data: [DONE]\<newline>'')
   \<and> frames (ascii ''data: [DONE]\<newline>'') = []
   \<and> scan id (ascii ''data: [DONE]\<newline>'') [] = Inr []"
proof -
  have e: "exec (ascii ''data: {[DONE]}\<newline>xyz'') = Some (Some (ascii ''{[DONE]}''), ascii ''xyz'')"
    by code_simp
  have i: "includes_str (ascii ''{[DONE]}'') DONE"
    by code_simp
  have b: "0x7B \<notin> set (ascii ''data: [DONE]\<newline>'')"
    by (simp add: ascii_def)
  from braced_frames_only [of "ascii ''data: {[DONE]}\<newline>xyz''" "Some (ascii ''{[DONE]}'')" "ascii ''xyz''"
      id "[]" "ascii ''{[DONE]}''"] e i
  have 1: "\<exists>pre ws d b nl. ascii ''data: {[DONE]}\<newline>xyz'' =
          pre @ ascii ''data:'' @ ws @ 0x7B # d # b @ 0x7D # nl @ ascii ''xyz''"
    and 2: "\<exists>u v. ascii ''{[DONE]}'' = u @ DONE @ v"
    by blast+
  from braced_frames_only [of "ascii ''data: [DONE]\<newline>''" None "[]" id "[]" "[]"] b
  have 3: "frames (ascii ''data: [DONE]\<newline>'') = []"
    and 4: "scan id (ascii ''data: [DONE]\<newline>'') [] = Inr []"
    by blast+
  from e 1 i 2 b 3 4 show ?thesis by blast
qed

text \<open>
  Claim C5, as amended. A frame that the pattern yields, that does not contain the
  sentinel and that fails \<^verbatim>\<open>JSON.parse\<close> is appended verbatim and entire, and the loop
  goes on without an error. (A \<^verbatim>\<open>data:\<close> line without a braced body, such as
  \<^verbatim>\<open>data: not-json-at-all\<close>, is no frame and appends nothing: see the counterexample.)
\<close>

theorem malformed_payload_verbatim:
  assumes "exec s = Some (Some j, rest)" and "\<not> includes_str j DONE" and "JSON_parse j = None"
  shows "interpret_payload ns j = j \<and> (\<exists>t. scan ns s acc = Inr (acc @ j @ t))"
proof
  from assms(3) show p: "interpret_payload ns j = j" by (simp add: interpret_payload_def)
  from assms(1,2) have "scan ns s acc = scan ns rest (acc @ interpret_payload ns j)"
    by (simp add: scan_match)
  with p have "scan ns s acc = Inr (acc @ j @ concat (deltas ns (frames rest)))"
    by (simp add: scan_eq)
  then show "\<exists>t. scan ns s acc = Inr (acc @ j @ t)" by blast
qed

theorem malformed_payload_verbatim_witness:
  "exec (ascii ''data: {not json}\<newline>'') = Some (Some (ascii ''{not json}''), [])
   \<and> \<not> includes_str (ascii ''{not json}'') DONE
   \<and> JSON_parse (ascii ''{not json}'') = None
   \<and> interpret_payload id (ascii ''{not json}'') = ascii ''{not json}''
   \<and> (\<exists>t. scan id (ascii ''data: {not json}\<newline>'') [] = Inr ([] @ ascii ''{not json}'' @ t))"
proof -
  have e: "exec (ascii ''data: {not json}\<newline>'') = Some (Some (ascii ''{not json}''), [])"
    by code_simp
  have i: "\<not> includes_str (ascii ''{not json}'') DONE"
    by code_simp
  have p: "JSON_parse (ascii ''{not json}'') = None"
    by code_simp
  from malformed_payload_verbatim [OF e i p, of id "[]"] e i p show ?thesis by blast
qed

theorem plain_payload_counterexample:
  "JSON_parse (ascii ''not-json-at-all'') = None
   \<and> getAiInsights id (stream_ok [ascii_bytes ''data: not-json-at-all\<newline>'']) =
       \<lparr>insight = [], loading = False\<rparr>"
proof -
  have p: "JSON_parse (ascii ''not-json-at-all'') = None"
    by code_simp
  have d: "decode (ascii_bytes ''data: not-json-at-all\<newline>'') = ascii ''data: not-json-at-all\<newline>''"
    by (rule decode_ascii) (simp add: is_ascii_def)
  have "0x7B \<notin> set (ascii ''data: not-json-at-all\<newline>'')"
    by (simp add: ascii_def)
  then have "frames (ascii ''data: not-json-at-all\<newline>'') = []"
    by (simp add: no_brace_no_match frames_no_match)
  with d p show ?thesis
    by (simp add: getAiInsights_stream_ok deltas_def)
qed

subsection \<open>The sentinel\<close>

text \<open>
  Claim C4, as amended. A frame whose payload contains \<^verbatim>\<open>[DONE]\<close> appends nothing
  itself (\<^verbatim>\<open>continue\<close>); the frames before it and the frames after it in the same chunk
  are interpreted and appended as if it were not there. No flag is set: later chunks are
  read as before, until the reader reports \<^verbatim>\<open>done\<close>.
\<close>

theorem sentinel_skips_only_itself:
  assumes "frames s = fs1 @ j # fs2" and "includes_str j DONE"
  shows "scan ns s acc = Inr (acc @ concat (deltas ns fs1) @ concat (deltas ns fs2))"
proof -
  from assms(2) have "deltas ns [j] = []" by (simp add: deltas_def)
  then have "deltas ns (fs1 @ j # fs2) = deltas ns fs1 @ deltas ns fs2"
    using deltas_append [of ns fs1 "[j] @ fs2"] deltas_append [of ns "[j]" fs2] by simp
  with assms(1) show ?thesis by (simp add: scan_eq)
qed

lemma sentinel_chunk_frames:
  "frames (ascii ''data: {\"x\":\"[DONE]\"}\<newline>data: {after}\<newline>'') =
     [] @ ascii ''{\"x\":\"[DONE]\"}'' # [ascii ''{after}'']"
  by code_simp

lemma after_delta: "deltas id [ascii ''{after}''] = [ascii ''{after}'']"
  by code_simp

lemma sentinel_includes: "includes_str (ascii ''{\"x\":\"[DONE]\"}'') DONE"
  by code_simp

theorem sentinel_skips_only_itself_witness:
  "frames (ascii ''data: {\"x\":\"[DONE]\"}\<newline>data: {after}\<newline>'') =
     [] @ ascii ''{\"x\":\"[DONE]\"}'' # [ascii ''{after}'']
   \<and> includes_str (ascii ''{\"x\":\"[DONE]\"}'') DONE
   \<and> scan id (ascii ''data: {\"x\":\"[DONE]\"}\<newline>data: {after}\<newline>'') [] = Inr (ascii ''{after}'')"
proof -
  from sentinel_skips_only_itself [OF sentinel_chunk_frames sentinel_includes, of id "[]"]
  have "scan id (ascii ''data: {\"x\":\"[DONE]\"}\<newline>data: {after}\<newline>'') [] = Inr (ascii ''{after}'')"
    by (simp add: after_delta) (simp add: deltas_def)
  with sentinel_chunk_frames sentinel_includes show ?thesis by blast
qed

theorem sentinel_counterexample:
  "includes_str (ascii ''{\"x\":\"[DONE]\"}'') DONE
   \<and> frames (ascii ''data: {\"x\":\"[DONE]\"}\<newline>data: {after}\<newline>'') =
       [ascii ''{\"x\":\"[DONE]\"}'', ascii ''{after}'']
   \<and> getAiInsights id (stream_ok [ascii_bytes ''data: {\"x\":\"[DONE]\"}\<newline>data: {after}\<newline>'',
                                    ascii_bytes ''data: {later}\<newline>'']) =
       \<lparr>insight = ascii ''{after}{later}'', loading = False\<rparr>"
proof -
  have d1: "decode (ascii_bytes ''data: {\"x\":\"[DONE]\"}\<newline>data: {after}\<newline>'') =
      ascii ''data: {\"x\":\"[DONE]\"}\<newline>data: {after}\<newline>''"
    by (rule decode_ascii) (simp add: is_ascii_def)
  have d2: "decode (ascii_bytes ''data: {later}\<newline>'') = ascii ''data: {later}\<newline>''"
    by (rule decode_ascii) (simp add: is_ascii_def)
  have f1: "frames (ascii ''data: {\"x\":\"[DONE]\"}\<newline>data: {after}\<newline>'') =
       [ascii ''{\"x\":\"[DONE]\"}'', ascii ''{after}'']"
    using sentinel_chunk_frames by simp
  have f2: "frames (ascii ''data: {later}\<newline>'') = [ascii ''{later}'']"
    by code_simp
  have i2: "\<not> includes_str (ascii ''{after}'') DONE" "\<not> includes_str (ascii ''{later}'') DONE"
    by code_simp+
  have p: "interpret_payload id (ascii ''{after}'') = ascii ''{after}''"
     "interpret_payload id (ascii ''{later}'') = ascii ''{later}''"
    by code_simp+
  have c: "ascii ''{after}'' @ ascii ''{later}'' = ascii ''{after}{later}''"
    by (simp add: ascii_def)
  show ?thesis
    by (simp add: getAiInsights_stream_ok d1 d2 f1 f2 deltas_def sentinel_includes i2 p c)
qed

subsection \<open>The accumulated output\<close>

text \<open>
  Claim C3, as amended. After any number of chunks, \<^verbatim>\<open>insight\<close> is the concatenation, in
  order, of what the frames found so far append, where the frames of a chunk are found in
  that chunk alone; text of a chunk that forms no frame there is dropped, not kept for
  the next chunk: such a chunk leaves the state as it was, and the state is \<^verbatim>\<open>insight\<close>
  only.
\<close>

theorem output_concat_of_chunk_frames:
  "read_loop ns [] (take k chunks) None =
      Inr (concat (deltas ns (concat (map (\<lambda>v. frames (decode v)) (take k chunks)))))
   \<and> (frames (decode v) = [] \<longrightarrow> on_chunk ns ins v = Inr ins)"
proof
  show "read_loop ns [] (take k chunks) None =
      Inr (concat (deltas ns (concat (map (\<lambda>v. frames (decode v)) (take k chunks)))))"
    by (simp add: read_loop_eq deltas_concat comp_def)
  show "frames (decode v) = [] \<longrightarrow> on_chunk ns ins v = Inr ins"
    by (simp add: on_chunk_eq deltas_def)
qed

theorem output_concat_of_chunk_frames_witness:
  "frames (decode (ascii_bytes ''data: {a'')) = []
   \<and> on_chunk id (ascii ''xy'') (ascii_bytes ''data: {a'') = Inr (ascii ''xy'')
   \<and> read_loop id [] (take 1 [ascii_bytes ''data: {a'', ascii_bytes ''b}'']) None = Inr []"
proof -
  have d: "decode (ascii_bytes ''data: {a'') = ascii ''data: {a''"
    by (rule decode_ascii) (simp add: is_ascii_def)
  have "0x7D \<notin> set (ascii ''data: {a'')" by (simp add: ascii_def)
  then have f: "frames (decode (ascii_bytes ''data: {a'')) = []"
    by (simp add: d no_brace_no_match frames_no_match)
  from output_concat_of_chunk_frames [of id 1 "[ascii_bytes ''data: {a'', ascii_bytes ''b}'']"
      "ascii_bytes ''data: {a''" "ascii ''xy''"] f
  show ?thesis by (simp add: deltas_def)
qed

theorem carry_over_counterexample:
  "on_chunk id [] (ascii_bytes ''data: {a'') = Inr []
   \<and> read_loop id [] [ascii_bytes ''data: {a'', ascii_bytes ''b}\<newline>''] None = Inr []
   \<and> read_loop id [] [ascii_bytes ''data: {ab}\<newline>''] None = Inr (ascii ''{ab}'')"
proof -
  have d: "decode (ascii_bytes ''data: {a'') = ascii ''data: {a''"
    "decode (ascii_bytes ''b}\<newline>'') = ascii ''b}\<newline>''"
    "decode (ascii_bytes ''data: {ab}\<newline>'') = ascii ''data: {ab}\<newline>''"
    by (rule decode_ascii, simp add: is_ascii_def)+
  have "0x7D \<notin> set (ascii ''data: {a'')" "0x7B \<notin> set (ascii ''b}\<newline>'')"
    by (simp_all add: ascii_def)
  then have f: "frames (ascii ''data: {a'') = []" "frames (ascii ''b}\<newline>'') = []"
    by (simp_all add: no_brace_no_match frames_no_match)
  have f3: "frames (ascii ''data: {ab}\<newline>'') = [ascii ''{ab}'']"
    by code_simp
  have p: "deltas id [ascii ''{ab}''] = [ascii ''{ab}'']"
    by code_simp
  show ?thesis
    by (simp add: read_loop_eq on_chunk_eq d f f3 p) (simp add: deltas_def)
qed

subsection \<open>The content field\<close>

text \<open>
  The field at the path \<^verbatim>\<open>choices[0].delta.content\<close> of a parsed value, step by step;
  \<open>None\<close> when a step of the path is absent.
\<close>

definition field_at_path :: "json \<Rightarrow> json option" where
  "field_at_path v =
     Option.bind (Option.bind (Option.bind (get_member (ascii ''choices'') v) get_index0)
                              (get_member (ascii ''delta'')))
                 (get_member (ascii ''content''))"

lemma opt_chain_bind:
  assumes "f JNull = None"
  shows "opt_chain x f = Option.bind x f"
proof (cases x)
  case None
  then show ?thesis by simp
next
  case (Some v)
  with assms show ?thesis by (cases v) simp_all
qed

lemma content_of_path: "v \<noteq> JNull \<Longrightarrow> content_of v = Some (field_at_path v)"
  by (simp add: content_of_def field_at_path_def opt_chain_bind)

lemma hi_parse:
  "JSON_parse (ascii ''{\"choices\":[{\"delta\":{\"content\":\"Hi\"}}]}'') =
     Some (JObject [(ascii ''choices'',
             JArray [JObject [(ascii ''delta'', JObject [(ascii ''content'', JString (ascii ''Hi''))])]])])"
  by code_simp

lemma hi_path:
  "field_at_path (JObject [(ascii ''choices'',
             JArray [JObject [(ascii ''delta'', JObject [(ascii ''content'', JString (ascii ''Hi''))])]])]) =
     Some (JString (ascii ''Hi''))"
  by code_simp

subsection \<open>A nested payload\<close>

text \<open>
  Claim C6 does not hold of the code: for the payload shape that the optional chain
  expects, the lazy \<^verbatim>\<open>.+?\<close> stops at the first inner closing brace. The frame is a
  prefix of the payload, \<^verbatim>\<open>JSON.parse\<close> rejects it, and the raw prefix is what the user
  sees.
\<close>

theorem nested_payload_truncated:
  "frames (ascii ''data: {\"choices\":[{\"delta\":{\"content\":\"Hi\"}}]}\<newline>'') =
     [ascii ''{\"choices\":[{\"delta\":{\"content\":\"Hi\"}'']
   \<and> JSON_parse (ascii ''{\"choices\":[{\"delta\":{\"content\":\"Hi\"}'') = None
   \<and> getAiInsights id (stream_ok [ascii_bytes ''data: {\"choices\":[{\"delta\":{\"content\":\"Hi\"}}]}\<newline>'']) =
       \<lparr>insight = ascii ''{\"choices\":[{\"delta\":{\"content\":\"Hi\"}'', loading = False\<rparr>"
proof -
  have d: "decode (ascii_bytes ''data: {\"choices\":[{\"delta\":{\"content\":\"Hi\"}}]}\<newline>'') =
      ascii ''data: {\"choices\":[{\"delta\":{\"content\":\"Hi\"}}]}\<newline>''"
    by (rule decode_ascii) (simp add: is_ascii_def)
  have f: "frames (ascii ''data: {\"choices\":[{\"delta\":{\"content\":\"Hi\"}}]}\<newline>'') =
     [ascii ''{\"choices\":[{\"delta\":{\"content\":\"Hi\"}'']"
    by code_simp
  have p: "JSON_parse (ascii ''{\"choices\":[{\"delta\":{\"content\":\"Hi\"}'') = None"
    by code_simp
  have i: "\<not> includes_str (ascii ''{\"choices\":[{\"delta\":{\"content\":\"Hi\"}'') DONE"
    by code_simp
  from p have ip: "interpret_payload id (ascii ''{\"choices\":[{\"delta\":{\"content\":\"Hi\"}'') =
      ascii ''{\"choices\":[{\"delta\":{\"content\":\"Hi\"}''"
    by (simp add: interpret_payload_def)
  show ?thesis
    by (simp add: getAiInsights_stream_ok d f p deltas_def i ip)
qed

subsection \<open>The end-to-end scenario\<close>

text \<open>
  The three chunks of the scenario of Claim C2.
\<close>

definition scenario :: "byte list list" where
  "scenario =
     [ascii_bytes ''data: {\"choices\":[{\"delta\":{\"content\":\"Hel'',
      ascii_bytes ''lo\"}}]}\<newline>'',
      ascii_bytes ''data: {\"choices\":[{\"delta\":{\"content\":\" world\"}}]}\<newline>data: [DONE]\<newline>'']"

lemma scenario_decoded:
  "decode (ascii_bytes ''data: {\"choices\":[{\"delta\":{\"content\":\"Hel'') =
     ascii ''data: {\"choices\":[{\"delta\":{\"content\":\"Hel''"
  "decode (ascii_bytes ''lo\"}}]}\<newline>'') = ascii ''lo\"}}]}\<newline>''"
  "decode (ascii_bytes ''data: {\"choices\":[{\"delta\":{\"content\":\" world\"}}]}\<newline>data: [DONE]\<newline>'') =
     ascii ''data: {\"choices\":[{\"delta\":{\"content\":\" world\"}}]}\<newline>data: [DONE]\<newline>''"
  "decode (ascii_bytes ''data: {\"choices\":[{\"delta\":{\"content\":\" world\"}}]}\<newline>'') =
     ascii ''data: {\"choices\":[{\"delta\":{\"content\":\" world\"}}]}\<newline>''"
  by (rule decode_ascii, simp add: is_ascii_def)+

lemma scenario_frames:
  "frames (ascii ''data: {\"choices\":[{\"delta\":{\"content\":\"Hel'') = []"
  "frames (ascii ''lo\"}}]}\<newline>'') = []"
  "frames (ascii ''data: {\"choices\":[{\"delta\":{\"content\":\" world\"}}]}\<newline>data: [DONE]\<newline>'') =
     [ascii ''{\"choices\":[{\"delta\":{\"content\":\" world\"}'']"
  "frames (ascii ''data: {\"choices\":[{\"delta\":{\"content\":\" world\"}}]}\<newline>'') =
     [ascii ''{\"choices\":[{\"delta\":{\"content\":\" world\"}'']"
  by code_simp+

lemma world_delta:
  "deltas id [ascii ''{\"choices\":[{\"delta\":{\"content\":\" world\"}''] =
     [ascii ''{\"choices\":[{\"delta\":{\"content\":\" world\"}'']"
  by code_simp

theorem scenario_counterexample:
  "getAiInsights id (stream_ok scenario) =
     \<lparr>insight = ascii ''{\"choices\":[{\"delta\":{\"content\":\" world\"}'', loading = False\<rparr>
   \<and> insight (getAiInsights id (stream_ok scenario)) \<noteq> ascii ''Hello world''"
proof -
  have 1: "getAiInsights id (stream_ok scenario) =
     \<lparr>insight = ascii ''{\"choices\":[{\"delta\":{\"content\":\" world\"}'', loading = False\<rparr>"
    by (simp add: getAiInsights_stream_ok scenario_def scenario_decoded scenario_frames world_delta)
       (simp add: deltas_def)
  have "ascii ''{\"choices\":[{\"delta\":{\"content\":\" world\"}'' \<noteq> ascii ''Hello world''"
    by (simp add: ascii_def)
  with 1 show ?thesis by simp
qed

text \<open>
  Claim C2, as amended. On the scenario's chunks the session ends normally (CLOSED); the
  first two chunks, which share one frame between them, append nothing, and so does the
  line \<^verbatim>\<open>data: [DONE]\<close>: the output is what the one frame of the third chunk appends.
\<close>

theorem scenario_third_chunk_only:
  "terminal_state ns (stream_ok scenario) = CLOSED
   \<and> on_chunk ns [] (scenario ! 0) = Inr []
   \<and> on_chunk ns [] (scenario ! 1) = Inr []
   \<and> getAiInsights ns (stream_ok scenario) =
       getAiInsights ns (stream_ok
         [ascii_bytes ''data: {\"choices\":[{\"delta\":{\"content\":\" world\"}}]}\<newline>''])"
proof (intro conjI)
  show "terminal_state ns (stream_ok scenario) = CLOSED"
    by (rule terminal_state_stream_ok)
  show "on_chunk ns [] (scenario ! 0) = Inr []"
    by (simp add: scenario_def on_chunk_eq scenario_decoded scenario_frames deltas_def)
  show "on_chunk ns [] (scenario ! 1) = Inr []"
    by (simp add: scenario_def on_chunk_eq scenario_decoded scenario_frames deltas_def)
  show "getAiInsights ns (stream_ok scenario) =
       getAiInsights ns (stream_ok
         [ascii_bytes ''data: {\"choices\":[{\"delta\":{\"content\":\" world\"}}]}\<newline>''])"
    by (simp add: getAiInsights_stream_ok scenario_def scenario_decoded scenario_frames)
       (simp add: deltas_def)
qed


subsection \<open>What a frame can hold\<close>

text \<open>
  The number of objects in a parsed value. A frame has at most two closing braces, the
  one that ends it and possibly the character right after its opening brace; a parsed
  value has no more objects than its text has closing braces; and the path
  \<^verbatim>\<open>choices[0].delta.content\<close> leads through three objects.
\<close>

declare pelems.simps [simp del]

fun objs :: "json \<Rightarrow> nat" where
  "objs (JObject kvs) = Suc (sum_list (map (\<lambda>kv. objs (snd kv)) kvs))"
| "objs (JArray vs) = sum_list (map objs vs)"
| "objs _ = 0"

lemma lex_string_count: "lex_string s = Some (t, r) \<Longrightarrow> count_list r c \<le> count_list s c"
proof (induction s arbitrary: t rule: lex_string.induct)
  case 1
  then show ?case by simp
next
  case (2 x xs)
  show ?case
  proof (cases "x = 0x22")
    case True
    with 2(4) show ?thesis by simp
  next
    case q: False
    show ?thesis
    proof (cases "x = 0x5C")
      case True
      with q 2(4) obtain e cs' where xs: "xs = e # cs'" by (cases xs) auto
      show ?thesis
      proof (cases "e = 0x75")
        case u: True
        with q True xs 2(4) obtain h1 h2 h3 h4 cs'' u' t' where
          cs': "cs' = h1 # h2 # h3 # h4 # cs''" and h: "hex4 h1 h2 h3 h4 = Some u'"
          and l: "lex_string cs'' = Some (t', r)"
          by (auto split: list.splits option.splits)
        from 2(1) q True xs u cs' h l have "count_list r c \<le> count_list cs'' c" by blast
        with xs cs' show ?thesis by simp
      next
        case u: False
        with q True xs 2(4) obtain u' t' where h: "unescape e = Some u'"
          and l: "lex_string cs' = Some (t', r)"
          by (auto split: option.splits)
        from 2(2) q True xs u h l have "count_list r c \<le> count_list cs' c" by blast
        with xs show ?thesis by simp
      qed
    next
      case b: False
      with q 2(4) have lo: "\<not> x < 0x20" by (auto split: if_splits)
      with q b 2(4) obtain t' where l: "lex_string xs = Some (t', r)"
        by (auto split: option.splits)
      from 2(3) q b lo l have "count_list r c \<le> count_list xs c" by blast
      then show ?thesis by simp
    qed
  qed
qed


lemma int_part_consumed: "int_part s = Some (t, r) \<Longrightarrow> s = t @ r"
  by (auto simp add: int_part_def split: list.splits if_splits)

lemma frac_part_consumed: "frac_part s = Some (t, r) \<Longrightarrow> s = t @ r"
  by (auto simp add: frac_part_def split: list.splits if_splits)

lemma exp_part_consumed: "exp_part s = Some (t, r) \<Longrightarrow> s = t @ r"
  by (auto simp add: exp_part_def Let_def split: list.splits if_splits prod.splits)

lemma lex_number_consumed: "lex_number s = Some (t, r) \<Longrightarrow> s = t @ r"
proof -
  assume a: "lex_number s = Some (t, r)"
  obtain sg s1 where sg: "(case s of [] \<Rightarrow> ([], []) | c # r \<Rightarrow> if c = 0x2D then ([c], r) else ([], s)) = (sg, s1)"
    by (cases "(case s of [] \<Rightarrow> ([], []) | c # r \<Rightarrow> if c = 0x2D then ([c], r) else ([]::jstr, s))") auto
  then have s1: "s = sg @ s1"
    by (auto split: list.splits if_splits)
  from a sg obtain ip s2 fp s3 ep where
    i: "int_part s1 = Some (ip, s2)" and f: "frac_part s2 = Some (fp, s3)"
    and e: "exp_part s3 = Some (ep, r)" and t: "t = sg @ ip @ fp @ ep"
    by (auto simp add: lex_number_def split: option.splits)
  from int_part_consumed [OF i] frac_part_consumed [OF f] exp_part_consumed [OF e] s1 t
  show ?thesis by simp
qed

lemma lex_number_count: "lex_number s = Some (t, r) \<Longrightarrow> count_list r c \<le> count_list s c"
  by (drule lex_number_consumed) simp

lemma strip_prefix_count: "strip_prefix p s = Some r \<Longrightarrow> count_list r c \<le> count_list s c"
  by (simp add: strip_prefix_Some)


lemma lex_step:
  assumes "lex (c # cs) = Some ts"
  shows "(json_ws c \<and> lex cs = Some ts) \<or>
         (\<exists>tok r ts'. ts = tok # ts' \<and> lex r = Some ts' \<and> length r < length (c # cs)
            \<and> count_list r 0x7D + (if tok = TRBrace then 1 else 0) \<le> count_list (c # cs) 0x7D)"
proof (cases "json_ws c")
  case True
  with assms show ?thesis by simp
next
  case ws: False
  have key: "\<exists>tok r ts'. ts = tok # ts' \<and> lex r = Some ts' \<and> length r < length (c # cs)
            \<and> count_list r 0x7D + (if tok = TRBrace then 1 else 0) \<le> count_list (c # cs) 0x7D"
    if "lex r = Some ts'" "ts = tok # ts'" "length r < length (c # cs)"
      "count_list r 0x7D + (if tok = TRBrace then 1 else 0) \<le> count_list (c # cs) 0x7D"
    for tok r ts'
    using that by blast
  consider (punct) "c = 0x7B \<or> c = 0x7D \<or> c = 0x5B \<or> c = 0x5D \<or> c = 0x3A \<or> c = 0x2C"
    | (str) "c = 0x22"
    | (num) "c \<noteq> 0x7B" "c \<noteq> 0x7D" "c \<noteq> 0x5B" "c \<noteq> 0x5D" "c \<noteq> 0x3A" "c \<noteq> 0x2C" "c \<noteq> 0x22"
        "c = 0x2D \<or> is_digit c"
    | (kw) "c \<noteq> 0x7B" "c \<noteq> 0x7D" "c \<noteq> 0x5B" "c \<noteq> 0x5D" "c \<noteq> 0x3A" "c \<noteq> 0x2C" "c \<noteq> 0x22"
        "\<not> (c = 0x2D \<or> is_digit c)"
    by blast
  then show ?thesis
  proof cases
    case punct
    with ws assms obtain tok ts' where "ts = tok # ts'" "lex cs = Some ts'"
      "tok = TRBrace \<longrightarrow> c = 0x7D"
      by (auto split: if_splits)
    then show ?thesis by (intro disjI2 key [of cs ts' tok]) auto
  next
    case str
    with ws assms obtain t r ts' where l: "lex_string cs = Some (t, r)"
      and r: "lex r = Some ts'" "ts = TStr t # ts'"
      by (auto split: option.splits)
    from lex_string_shorter [OF l] lex_string_count [OF l, of "0x7D"] str r
    show ?thesis by (intro disjI2 key [of r ts' "TStr t"]) auto
  next
    case num
    with ws assms obtain n r ts' where l: "lex_number (c # cs) = Some (n, r)"
      and r: "lex r = Some ts'" "ts = TNum n # ts'"
      by (auto split: option.splits)
    from lex_number_shorter [OF l] lex_number_count [OF l, of "0x7D"] r
    show ?thesis by (intro disjI2 key [of r ts' "TNum n"]) auto
  next
    case kw
    have fin: ?thesis if l: "strip_prefix (ascii (a # w)) (c # cs) = Some r"
      and r: "lex r = Some ts'" "ts = tok # ts'" "tok \<noteq> TRBrace" for a w r ts' tok
      using strip_ascii_shorter [OF l] strip_prefix_count [OF l, of "0x7D"] r
      by (intro disjI2 key [of r ts' tok]) auto
    show ?thesis
    proof (cases "strip_prefix (ascii ''true'') (c # cs)")
      case (Some r)
      with kw ws assms obtain ts' where "lex r = Some ts'" "ts = TTrue # ts'"
        by (auto simp del: strip_prefix.simps)
      with Some show ?thesis by (intro fin [of _ _ r ts' TTrue]) auto
    next
      case t: None
      show ?thesis
      proof (cases "strip_prefix (ascii ''false'') (c # cs)")
        case (Some r)
        with t kw ws assms obtain ts' where "lex r = Some ts'" "ts = TFalse # ts'"
          by (auto simp del: strip_prefix.simps)
        with Some show ?thesis by (intro fin [of _ _ r ts' TFalse]) auto
      next
        case f: None
        show ?thesis
        proof (cases "strip_prefix (ascii ''null'') (c # cs)")
          case (Some r)
          with t f kw ws assms obtain ts' where "lex r = Some ts'" "ts = TNull # ts'"
            by (auto simp del: strip_prefix.simps)
          with Some show ?thesis by (intro fin [of _ _ r ts' TNull]) auto
        next
          case None
          with t f kw ws assms show ?thesis by (simp del: strip_prefix.simps)
        qed
      qed
    qed
  qed
qed


lemma lex_count: "lex s = Some ts \<Longrightarrow> count_list ts TRBrace \<le> count_list s 0x7D"
proof (induction s arbitrary: ts rule: length_induct)
  case (1 s)
  show ?case
  proof (cases s)
    case Nil
    with 1(2) show ?thesis by simp
  next
    case (Cons c cs)
    from lex_step [of c cs ts] 1(2) Cons
    consider "json_ws c" "lex cs = Some ts"
      | tok r ts' where "ts = tok # ts'" "lex r = Some ts'" "length r < length (c # cs)"
          "count_list r 0x7D + (if tok = TRBrace then 1 else 0) \<le> count_list (c # cs) 0x7D"
      by blast
    then show ?thesis
    proof cases
      case 1
      with "1.IH" Cons have "count_list ts TRBrace \<le> count_list cs 0x7D" by simp
      with Cons show ?thesis by simp
    next
      case 2
      with "1.IH" Cons have "count_list ts' TRBrace \<le> count_list r 0x7D" by simp
      with 2 Cons show ?thesis by (auto split: if_splits)
    qed
  qed
qed

lemma parse_objs:
  "(\<forall>v r. pvalue ts = Some (v, r) \<longrightarrow> objs v + count_list r TRBrace \<le> count_list ts TRBrace)
   \<and> (\<forall>vs r. pelems ts = Some (vs, r) \<longrightarrow>
          sum_list (map objs vs) + count_list r TRBrace \<le> count_list ts TRBrace)
   \<and> (\<forall>kvs r. pmembers ts = Some (kvs, r) \<longrightarrow>
          Suc (sum_list (map (\<lambda>kv. objs (snd kv)) kvs) + count_list r TRBrace)
            \<le> count_list ts TRBrace)"
proof (induction ts rule: length_induct)
  case (1 ts)
  have P: "objs v + count_list r TRBrace \<le> count_list ts TRBrace"
    if a: "pvalue ts = Some (v, r)" for v r
  proof -
    from a obtain t ts' where ts: "ts = t # ts'" by (cases ts) auto
    show ?thesis
    proof (cases t)
      case TLBrack
      show ?thesis
      proof (cases "\<exists>r'. ts' = TRBrack # r'")
        case True
        with a ts TLBrack show ?thesis by auto
      next
        case False
        with a ts TLBrack obtain vs where p: "pelems ts' = Some (vs, r)" "v = JArray vs"
          by (auto split: list.splits token.splits option.splits)
        from 1 ts p(1) have "sum_list (map objs vs) + count_list r TRBrace \<le> count_list ts' TRBrace"
          by simp
        with p(2) ts TLBrack show ?thesis by simp
      qed
    next
      case TLBrace
      show ?thesis
      proof (cases "\<exists>r'. ts' = TRBrace # r'")
        case True
        with a ts TLBrace show ?thesis by auto
      next
        case False
        with a ts TLBrace obtain kvs where p: "pmembers ts' = Some (kvs, r)" "v = JObject kvs"
          by (auto split: list.splits token.splits option.splits)
        from 1 ts p(1)
        have "Suc (sum_list (map (\<lambda>kv. objs (snd kv)) kvs) + count_list r TRBrace)
                \<le> count_list ts' TRBrace"
          by simp
        with p(2) ts TLBrace show ?thesis by simp
      qed
    qed (use a ts in auto)
  qed
  have Q: "sum_list (map objs vs) + count_list r TRBrace \<le> count_list ts TRBrace"
    if a: "pelems ts = Some (vs, r)" for vs r
  proof -
    from a obtain v r0 where pv: "pvalue ts = Some (v, r0)"
      by (subst (asm) pelems.simps) (auto split: option.splits)
    from P [OF pv] have iv: "objs v + count_list r0 TRBrace \<le> count_list ts TRBrace" .
    from a pv consider r' vs' where "r0 = TComma # r'" "length r' < length ts"
        "pelems r' = Some (vs', r)" "vs = v # vs'"
      | "r0 = TRBrack # r" "vs = [v]"
      by (subst (asm) pelems.simps) (auto split: option.splits list.splits token.splits if_splits)
    then show ?thesis
    proof cases
      case c: 1
      from 1 c(2,3)
      have "sum_list (map objs vs') + count_list r TRBrace \<le> count_list r' TRBrace" by simp
      with iv c show ?thesis by simp
    next
      case 2
      with iv show ?thesis by simp
    qed
  qed
  have R: "Suc (sum_list (map (\<lambda>kv. objs (snd kv)) kvs) + count_list r TRBrace)
            \<le> count_list ts TRBrace"
    if a: "pmembers ts = Some (kvs, r)" for kvs r
  proof -
    from a obtain k ts' where ts: "ts = TStr k # TColon # ts'"
      by (cases ts) (auto split: token.splits list.splits)
    with a obtain v r0 where pv: "pvalue ts' = Some (v, r0)"
      by (auto split: option.splits)
    from 1 ts pv have iv: "objs v + count_list r0 TRBrace \<le> count_list ts' TRBrace" by simp
    from a ts pv consider r' kvs' where "r0 = TComma # r'" "length r' < length ts"
        "pmembers r' = Some (kvs', r)" "kvs = (k, v) # kvs'"
      | "r0 = TRBrace # r" "kvs = [(k, v)]"
      by (auto split: option.splits list.splits token.splits if_splits)
    then show ?thesis
    proof cases
      case c: 1
      from 1 c(2,3)
      have "Suc (sum_list (map (\<lambda>kv. objs (snd kv)) kvs') + count_list r TRBrace)
             \<le> count_list r' TRBrace"
        by simp
      with iv c ts show ?thesis by simp
    next
      case 2
      with iv ts show ?thesis by simp
    qed
  qed
  from P Q R show ?case by blast
qed


lemma own_prop_objs:
  assumes "own_prop kvs k = Some a"
  shows "objs a \<le> sum_list (map (\<lambda>kv. objs (snd kv)) kvs)"
proof -
  from assms have "(k, a) \<in> set kvs"
    by (auto simp add: own_prop_def dest: map_of_SomeD)
  then show ?thesis
    using member_le_sum_list [of "objs a" "map (\<lambda>kv. objs (snd kv)) kvs"] by force
qed

lemma get_member_objs: "get_member n v = Some a \<Longrightarrow> Suc (objs a) \<le> objs v"
  by (cases v) (auto dest: own_prop_objs)

lemma get_index0_objs: "get_index0 v = Some b \<Longrightarrow> objs b \<le> objs v"
proof (cases v)
  case (JArray vs)
  assume "get_index0 v = Some b"
  with JArray show ?thesis by (cases vs) auto
next
  case (JString s)
  assume "get_index0 v = Some b"
  with JString show ?thesis by (cases s) auto
next
  case (JObject kvs)
  assume "get_index0 v = Some b"
  with JObject own_prop_objs [of kvs "ascii ''0''" b] show ?thesis by simp
qed simp_all

lemma path_needs_three:
  assumes "field_at_path v = Some x"
  shows "3 \<le> objs v"
proof -
  from assms obtain a b c where
    a: "get_member (ascii ''choices'') v = Some a" and b: "get_index0 a = Some b"
    and c: "get_member (ascii ''delta'') b = Some c" and x: "get_member (ascii ''content'') c = Some x"
    by (auto simp add: field_at_path_def Option.bind_eq_Some_conv)
  from get_member_objs [OF a] get_index0_objs [OF b] get_member_objs [OF c] get_member_objs [OF x]
  show ?thesis by linarith
qed

lemma JSON_parse_objs:
  assumes "JSON_parse j = Some v"
  shows "objs v \<le> count_list j 0x7D"
proof -
  from assms obtain ts where l: "lex j = Some ts" and p: "pvalue ts = Some (v, [])"
    by (auto simp add: JSON_parse_def split: option.splits list.splits)
  from parse_objs [of ts] p have "objs v \<le> count_list ts TRBrace" by fastforce
  with lex_count [OF l] show ?thesis by linarith
qed

lemma frame_rbrace_count:
  assumes "exec s = Some (Some j, rest)"
  shows "count_list j 0x7D \<le> 2"
proof -
  from exec_shape [OF assms] obtain d b where
    j: "j = 0x7B # d # b @ [0x7D]" and b: "\<forall>c\<in>set b. is_dot c \<and> c \<noteq> 0x7D"
    by auto
  from b have "count_list b 0x7D = 0" by (auto simp add: count_list_0_iff)
  with j show ?thesis by simp
qed

lemma frame_parsed_not_null:
  assumes "exec s = Some (Some j, rest)" and "JSON_parse j = Some v"
  shows "v \<noteq> JNull"
proof -
  from exec_shape [OF assms(1)] obtain j' where j: "j = 0x7B # j'" by auto
  from assms(2) j obtain ts0 where l: "lex (0x7B # j') = Some ts0" and p: "pvalue ts0 = Some (v, [])"
    by (auto simp add: JSON_parse_def simp del: lex.simps pvalue.simps
        split: option.splits list.splits)
  from l obtain ts where "ts0 = TLBrace # ts" by (auto simp add: json_ws_def)
  with p have "pvalue (TLBrace # ts) = Some (v, [])" by simp
  then show ?thesis by (auto split: list.splits token.splits option.splits)
qed

lemma frame_content_absent:
  assumes "exec s = Some (Some j, rest)" and "JSON_parse j = Some v"
  shows "field_at_path v = None" and "interpret_payload ns j = []"
proof -
  from JSON_parse_objs [OF assms(2)] frame_rbrace_count [OF assms(1)] have "objs v \<le> 2" by linarith
  with path_needs_three [of v] show n: "field_at_path v = None"
    by (cases "field_at_path v") auto
  from frame_parsed_not_null [OF assms] have "content_of v = Some (field_at_path v)"
    by (rule content_of_path)
  with n assms(2) show "interpret_payload ns j = []"
    by (simp add: interpret_payload_def or_empty_def)
qed


text \<open>
  Claim C8 does not hold of the code, by the defect of Claim C6: no frame that the
  pattern yields can hold the three nested objects of the path, so whenever a frame
  parses, the field is absent and the frame appends the empty string. The content of a
  payload of the expected shape, such as \<^verbatim>\<open>{"choices":[{"delta":{"content":"Hi"}}]}\<close>,
  whose field at the path is \<^verbatim>\<open>Hi\<close>, is never what is appended: its line appends the
  raw prefix that the pattern cuts off.
\<close>

theorem content_never_extracted:
  "(exec s = Some (Some j, rest) \<and> JSON_parse j = Some v \<longrightarrow>
      field_at_path v = None \<and> interpret_payload ns j = [])
   \<and> (\<exists>v. JSON_parse (ascii ''{\"choices\":[{\"delta\":{\"content\":\"Hi\"}}]}'') = Some v
          \<and> field_at_path v = Some (JString (ascii ''Hi'')))
   \<and> on_chunk ns [] (ascii_bytes ''data: {\"choices\":[{\"delta\":{\"content\":\"Hi\"}}]}\<newline>'') =
       Inr (ascii ''{\"choices\":[{\"delta\":{\"content\":\"Hi\"}'')"
proof (intro conjI impI)
  assume "exec s = Some (Some j, rest) \<and> JSON_parse j = Some v"
  then have e: "exec s = Some (Some j, rest)" and p: "JSON_parse j = Some v" by simp_all
  show "field_at_path v = None" by (rule frame_content_absent(1) [OF e p])
  show "interpret_payload ns j = []" by (rule frame_content_absent(2) [OF e p])
next
  from hi_parse hi_path
  show "\<exists>v. JSON_parse (ascii ''{\"choices\":[{\"delta\":{\"content\":\"Hi\"}}]}'') = Some v
          \<and> field_at_path v = Some (JString (ascii ''Hi''))"
    by blast
next
  have d: "decode (ascii_bytes ''data: {\"choices\":[{\"delta\":{\"content\":\"Hi\"}}]}\<newline>'') =
      ascii ''data: {\"choices\":[{\"delta\":{\"content\":\"Hi\"}}]}\<newline>''"
    by (rule decode_ascii) (simp add: is_ascii_def)
  have f: "frames (ascii ''data: {\"choices\":[{\"delta\":{\"content\":\"Hi\"}}]}\<newline>'') =
     [ascii ''{\"choices\":[{\"delta\":{\"content\":\"Hi\"}'']"
    by code_simp
  have p: "JSON_parse (ascii ''{\"choices\":[{\"delta\":{\"content\":\"Hi\"}'') = None"
    by code_simp
  have i: "\<not> includes_str (ascii ''{\"choices\":[{\"delta\":{\"content\":\"Hi\"}'') DONE"
    by code_simp
  from p have ip: "interpret_payload ns (ascii ''{\"choices\":[{\"delta\":{\"content\":\"Hi\"}'') =
      ascii ''{\"choices\":[{\"delta\":{\"content\":\"Hi\"}''"
    by (simp add: interpret_payload_def)
  show "on_chunk ns [] (ascii_bytes ''data: {\"choices\":[{\"delta\":{\"content\":\"Hi\"}}]}\<newline>'') =
       Inr (ascii ''{\"choices\":[{\"delta\":{\"content\":\"Hi\"}'')"
    by (simp add: on_chunk_eq d f deltas_def i ip)
qed

theorem content_never_extracted_witness:
  "exec (ascii ''data: {\"choices\":[]}\<newline>'') = Some (Some (ascii ''{\"choices\":[]}''), [])
   \<and> JSON_parse (ascii ''{\"choices\":[]}'') = Some (JObject [(ascii ''choices'', JArray [])])
   \<and> field_at_path (JObject [(ascii ''choices'', JArray [])]) = None
   \<and> interpret_payload id (ascii ''{\"choices\":[]}'') = []"
proof -
  have e: "exec (ascii ''data: {\"choices\":[]}\<newline>'') = Some (Some (ascii ''{\"choices\":[]}''), [])"
    by code_simp
  have p: "JSON_parse (ascii ''{\"choices\":[]}'') = Some (JObject [(ascii ''choices'', JArray [])])"
    by code_simp
  from content_never_extracted [of "ascii ''data: {\"choices\":[]}\<newline>''" "ascii ''{\"choices\":[]}''" "[]"
      "JObject [(ascii ''choices'', JArray [])]" id] e p
  show ?thesis by blast
qed


subsection \<open>A failed session\<close>

text \<open>
  What a session that ends normally shows is empty or begins with an opening brace: every
  frame appends itself or nothing.
\<close>

lemma frame_delta_cases:
  assumes "exec s = Some (Some j, rest)"
  shows "interpret_payload ns j = j \<or> interpret_payload ns j = []"
proof (cases "JSON_parse j")
  case None
  then show ?thesis by (simp add: interpret_payload_def)
next
  case (Some v)
  from frame_content_absent(2) [OF assms Some] show ?thesis by blast
qed

lemma frames_are_matches: "j \<in> set (frames s) \<Longrightarrow> \<exists>s' rest. exec s' = Some (Some j, rest)"
proof (induction s rule: length_induct)
  case (1 s)
  show ?case
  proof (cases "exec s")
    case None
    with 1(2) show ?thesis by (simp add: frames_no_match)
  next
    case (Some m)
    obtain g rest where m: "m = (g, rest)" by (cases m)
    with Some exec_group obtain j0 where g: "g = Some j0" by blast
    from Some m g have e: "exec s = Some (Some j0, rest)" by simp
    from exec_shorter(1) [OF e] have sh: "length rest < length s" .
    from 1(2) frames_match [OF e] have "j = j0 \<or> j \<in> set (frames rest)" by simp
    then show ?thesis
    proof
      assume "j = j0"
      with e show ?thesis by blast
    next
      assume "j \<in> set (frames rest)"
      with 1(1) sh show ?thesis by blast
    qed
  qed
qed

definition braced_or_empty :: "jstr \<Rightarrow> bool" where
  \<comment> \<open>the text is empty or begins with an opening brace\<close>
  "braced_or_empty t \<longleftrightarrow> (case t of [] \<Rightarrow> True | c # _ \<Rightarrow> c = 0x7B)"

lemma braced_or_empty_append:
  "braced_or_empty a \<Longrightarrow> braced_or_empty b \<Longrightarrow> braced_or_empty (a @ b)"
  by (cases a) (simp_all add: braced_or_empty_def)

lemma braced_or_empty_concat:
  "\<forall>x\<in>set xs. braced_or_empty x \<Longrightarrow> braced_or_empty (concat xs)"
  by (induction xs) (simp_all add: braced_or_empty_append, simp add: braced_or_empty_def)

lemma delta_braced_or_empty:
  assumes "j \<in> set (frames s)"
  shows "braced_or_empty (interpret_payload ns j)"
proof -
  from frames_are_matches [OF assms] obtain s' rest where e: "exec s' = Some (Some j, rest)"
    by blast
  from exec_shape [OF e] obtain j' where "j = 0x7B # j'" by auto
  with frame_delta_cases [OF e, of ns] show ?thesis
    by (auto simp add: braced_or_empty_def)
qed

lemma chunk_output_braced_or_empty: "braced_or_empty (concat (deltas ns (frames s)))"
  by (rule braced_or_empty_concat) (auto simp add: deltas_def delta_braced_or_empty)

lemma session_output_braced_or_empty:
  "braced_or_empty (insight (getAiInsights ns (stream_ok chunks)))"
  by (simp add: getAiInsights_stream_ok)
     (rule braced_or_empty_concat, auto simp add: chunk_output_braced_or_empty)

text \<open>
  Claim C9. A response whose status is not a success, and a response without a body, end
  the session in the state FAILED with the message of the error thrown, and \<^verbatim>\<open>insight\<close>
  is replaced by that message behind the indicator \<^verbatim>\<open>Error: \<close>; no session that ends
  normally shows the same.
\<close>

theorem transport_failure_reported:
  "getAiInsights ns (Response False b) =
     \<lparr>insight = ascii ''Error: Error: Backend unreachable'', loading = False\<rparr>
   \<and> terminal_state ns (Response False b) = FAILED (new_Error ''Backend unreachable'')
   \<and> getAiInsights ns (Response True None) =
     \<lparr>insight = ascii ''Error: Error: ReadableStream not yet supported or empty response'',
      loading = False\<rparr>
   \<and> terminal_state ns (Response True None) =
       FAILED (new_Error ''ReadableStream not yet supported or empty response'')
   \<and> terminal_state ns (stream_ok chunks) = CLOSED
   \<and> getAiInsights ns (stream_ok chunks) \<noteq> getAiInsights ns (Response False b)
   \<and> getAiInsights ns (stream_ok chunks) \<noteq> getAiInsights ns (Response True None)"
proof -
  have 1: "getAiInsights ns (Response False b) =
     \<lparr>insight = ascii ''Error: Error: Backend unreachable'', loading = False\<rparr>"
    by (simp add: getAiInsights_def try_block_def new_Error_def err_to_string_def ascii_def)
  have 2: "getAiInsights ns (Response True None) =
     \<lparr>insight = ascii ''Error: Error: ReadableStream not yet supported or empty response'',
      loading = False\<rparr>"
    by (simp add: getAiInsights_def try_block_def new_Error_def err_to_string_def ascii_def)
  have 3: "terminal_state ns (Response False b) = FAILED (new_Error ''Backend unreachable'')"
    "terminal_state ns (Response True None) =
       FAILED (new_Error ''ReadableStream not yet supported or empty response'')"
    by (simp_all add: terminal_state_def try_block_def)
  have n: "\<not> braced_or_empty (ascii ''Error: Error: Backend unreachable'')"
    "\<not> braced_or_empty (ascii ''Error: Error: ReadableStream not yet supported or empty response'')"
    by (simp_all add: braced_or_empty_def ascii_def)
  have 4: "getAiInsights ns (stream_ok chunks) \<noteq> getAiInsights ns (Response False b)"
    using session_output_braced_or_empty [of ns chunks] n(1) by (auto simp add: 1)
  have 5: "getAiInsights ns (stream_ok chunks) \<noteq> getAiInsights ns (Response True None)"
    using session_output_braced_or_empty [of ns chunks] n(2) by (auto simp add: 2)
  from 1 2 3 4 5 terminal_state_stream_ok [of ns chunks] show ?thesis by blast
qed


subsection \<open>A code point split between two chunks\<close>

text \<open>
  The state of the decoder after some bytes, and the code points it has emitted by then.
\<close>

fun utf8_after :: "utf8_state \<Rightarrow> byte list \<Rightarrow> utf8_state" where
  "utf8_after st [] = st"
| "utf8_after st (b # bs) = utf8_after (fst (utf8_handler st b)) bs"

fun utf8_out :: "utf8_state \<Rightarrow> byte list \<Rightarrow> nat list" where
  "utf8_out st [] = []"
| "utf8_out st (b # bs) = snd (utf8_handler st b) @ utf8_out (fst (utf8_handler st b)) bs"

lemma utf8_run_split:
  "utf8_run st bs = utf8_out st bs @ (if bytes_needed (utf8_after st bs) \<noteq> 0 then [0xFFFD] else [])"
  by (induction bs arbitrary: st) (simp_all add: case_prod_unfold Let_def)

lemma strip_bom_snoc: "\<exists>ys. strip_bom (xs @ [0xFFFD]) = ys @ [0xFFFD]"
  by (cases xs) (simp_all add: strip_bom_def)

lemma utf16_replacement: "utf16 0xFFFD = [0xFFFD]"
  by (simp add: utf16_def)

lemma continuation_lead:
  assumes "0x80 \<le> b" and "b \<le> 0xBF"
  shows "utf8_lead b = (utf8_init, [0xFFFD])"
proof -
  from assms have "128 \<le> unat b" "unat b \<le> 191"
    by (simp_all add: word_le_nat_alt)
  then have "\<not> b \<le> 0x7F" "\<not> 0xC2 \<le> b" "\<not> 0xE0 \<le> b" "\<not> 0xF0 \<le> b"
    by (simp_all add: word_le_nat_alt)
  then show ?thesis by (simp add: utf8_lead_def)
qed

text \<open>
  Claim C7, as amended. Each chunk is decoded on its own, from the initial state and with
  a flush at its end: a chunk that ends inside a multi-byte code point decodes to a text
  that ends with the replacement character U+FFFD, and a chunk that begins with a
  continuation byte decodes to a text that begins with U+FFFD. The code point is not
  completed from the next chunk, and no error is raised.
\<close>

theorem split_code_point_replaced:
  "(bytes_needed (utf8_after utf8_init bs) \<noteq> 0 \<longrightarrow> (\<exists>t. decode bs = t @ [0xFFFD]))
   \<and> (0x80 \<le> b \<and> b \<le> 0xBF \<longrightarrow> (\<exists>t. decode (b # bs') = 0xFFFD # t))"
proof (intro conjI impI)
  assume "bytes_needed (utf8_after utf8_init bs) \<noteq> 0"
  then have "utf8_run utf8_init bs = utf8_out utf8_init bs @ [0xFFFD]"
    by (simp add: utf8_run_split)
  with strip_bom_snoc [of "utf8_out utf8_init bs"] obtain ys where
    "strip_bom (utf8_run utf8_init bs) = ys @ [0xFFFD]" by auto
  then have "decode bs = concat (map utf16 ys) @ [0xFFFD]"
    by (simp add: decode_def utf16_replacement)
  then show "\<exists>t. decode bs = t @ [0xFFFD]" by blast
next
  assume "0x80 \<le> b \<and> b \<le> 0xBF"
  then have "utf8_run utf8_init (b # bs') = 0xFFFD # utf8_run utf8_init bs'"
    by (simp add: utf8_handler_init continuation_lead)
  then have "decode (b # bs') = 0xFFFD # concat (map utf16 (utf8_run utf8_init bs'))"
    by (simp add: decode_def strip_bom_def utf16_replacement)
  then show "\<exists>t. decode (b # bs') = 0xFFFD # t" by blast
qed

lemma split_e_acute:
  "decode [0xC3] = [0xFFFD]" "decode [0xA9] = [0xFFFD]" "decode [0xC3, 0xA9] = [0xE9]"
  by (simp_all add: decode_def utf8_handler_def utf8_lead_def utf8_init_def strip_bom_def utf16_def)

theorem split_code_point_replaced_witness:
  "bytes_needed (utf8_after utf8_init [0xC3]) \<noteq> 0 \<and> (\<exists>t. decode [0xC3] = t @ [0xFFFD])
   \<and> (0x80::byte) \<le> 0xA9 \<and> (0xA9::byte) \<le> 0xBF \<and> (\<exists>t. decode [0xA9, 0x7D] = 0xFFFD # t)"
proof -
  have n: "bytes_needed (utf8_after utf8_init [0xC3]) \<noteq> 0"
    by (simp add: utf8_handler_def utf8_lead_def utf8_init_def)
  have r: "(0x80::byte) \<le> 0xA9 \<and> (0xA9::byte) \<le> 0xBF" by simp
  from split_code_point_replaced [of "[0xC3]" "0xA9" "[0x7D]"] n r show ?thesis by blast
qed

theorem split_code_point_counterexample:
  "decode [0xC3, 0xA9] = [0xE9] \<and> decode [0xC3] @ decode [0xA9] = [0xFFFD, 0xFFFD]"
  by (simp add: split_e_acute)

subsection \<open>Chunk boundaries\<close>

lemma utf8_run_append: "utf8_run st (a @ b) = utf8_out st a @ utf8_run (utf8_after st a) b"
  by (induction a arbitrary: st) (simp_all add: case_prod_unfold Let_def)

lemma utf8_after_append: "utf8_after st (a @ b) = utf8_after (utf8_after st a) b"
  by (induction a arbitrary: st) simp_all

lemma utf8_out_append: "utf8_out st (a @ b) = utf8_out st a @ utf8_out (utf8_after st a) b"
  by (induction a arbitrary: st) simp_all

definition good_state :: "utf8_state \<Rightarrow> bool" where
  \<comment> \<open>holds of every state that the decoder reaches: a line feed is never a continuation\<close>
  "good_state st \<longleftrightarrow> 0x80 \<le> lower_boundary st"

lemma good_init: "good_state utf8_init"
  by (simp add: good_state_def utf8_init_def)

lemma good_lead: "good_state (fst (utf8_lead b))"
  by (simp add: utf8_lead_def good_state_def utf8_init_def)

lemma good_handler: "good_state (fst (utf8_handler st b))"
  by (simp add: utf8_handler_def good_lead case_prod_unfold Let_def)
     (simp add: good_state_def utf8_init_def)

lemma good_after: "good_state st \<Longrightarrow> good_state (utf8_after st bs)"
  by (induction bs arbitrary: st) (simp_all add: good_handler)

lemma lead_lf: "utf8_lead 0x0A = (utf8_init, [0x0A])"
  by (simp add: utf8_lead_def)

lemma handler_lf:
  assumes "good_state st"
  shows "fst (utf8_handler st 0x0A) = utf8_init"
    and "\<exists>xs. snd (utf8_handler st 0x0A) = xs @ [0x0A]"
proof -
  from assms have lo: "0x0A < lower_boundary st"
    by (simp add: good_state_def word_less_nat_alt word_le_nat_alt)
  then show "fst (utf8_handler st 0x0A) = utf8_init"
    by (simp add: utf8_handler_def lead_lf)
  from lo show "\<exists>xs. snd (utf8_handler st 0x0A) = xs @ [0x0A]"
    by (simp add: utf8_handler_def lead_lf)
qed


lemma after_lf: "good_state st \<Longrightarrow> utf8_after st (a @ [0x0A]) = utf8_init"
  by (simp add: utf8_after_append handler_lf(1) good_after)

lemma out_lf: "good_state st \<Longrightarrow> \<exists>xs. utf8_out st (a @ [0x0A]) = xs @ [0x0A]"
proof -
  assume "good_state st"
  then have "good_state (utf8_after st a)" by (rule good_after)
  from handler_lf(2) [OF this] obtain xs where
    "snd (utf8_handler (utf8_after st a) 0x0A) = xs @ [0x0A]" by blast
  then have "utf8_out st (a @ [0x0A]) = (utf8_out st a @ xs) @ [0x0A]"
    by (simp add: utf8_out_append)
  then show ?thesis by blast
qed

lemma utf8_ascii_prefix:
  assumes "is_ascii s"
  shows "utf8_out utf8_init (ascii_bytes s) = map of_char s"
    and "utf8_after utf8_init (ascii_bytes s) = utf8_init"
  using assms
proof (induction s)
  case Nil
  { case 1 show ?case by (simp add: ascii_bytes_def) }
  { case 2 show ?case by (simp add: ascii_bytes_def) }
next
  case (Cons c s)
  { case 1
    then have c: "(of_char c :: byte) \<le> 0x7F" and s: "is_ascii s"
      by (simp_all add: is_ascii_def of_char_byte_le)
    from Cons(1) [OF s] c show ?case
      by (simp add: ascii_bytes_def utf8_handler_init utf8_lead_ascii unat_of_char) }
  { case 2
    then have c: "(of_char c :: byte) \<le> 0x7F" and s: "is_ascii s"
      by (simp_all add: is_ascii_def of_char_byte_le)
    from Cons(2) [OF s] c show ?case
      by (simp add: ascii_bytes_def utf8_handler_init utf8_lead_ascii) }
qed

lemma strip_bom_append: "x \<noteq> [] \<Longrightarrow> strip_bom (x @ y) = strip_bom x @ y"
  by (cases x) (simp_all add: strip_bom_def)

lemma strip_bom_snoc_lf: "\<exists>ys. strip_bom (xs @ [0x0A]) = ys @ [0x0A]"
  by (cases xs) (simp_all add: strip_bom_def)

lemma utf16_lf: "utf16 0x0A = [0x0A]"
  by (simp add: utf16_def)

definition ends_with_lf :: "byte list \<Rightarrow> bool" where
  \<comment> \<open>the chunk ends with a line feed\<close>
  "ends_with_lf a \<longleftrightarrow> a \<noteq> [] \<and> last a = 0x0A"

definition starts_with_data :: "byte list \<Rightarrow> bool" where
  \<comment> \<open>the chunk begins with the bytes of \<^verbatim>\<open>data:\<close>\<close>
  "starts_with_data b \<longleftrightarrow> strip_prefix (ascii_bytes ''data:'') b \<noteq> None"

lemma decode_data_prefix:
  assumes "starts_with_data b"
  shows "\<exists>t. decode b = ascii ''data:'' @ t"
    and "strip_bom (utf8_run utf8_init b) = utf8_run utf8_init b"
proof -
  from assms obtain b' where b: "b = ascii_bytes ''data:'' @ b'"
    by (auto simp add: starts_with_data_def strip_prefix_Some)
  have a: "is_ascii ''data:''" by (simp add: is_ascii_def)
  have run: "utf8_run utf8_init b = map of_char ''data:'' @ utf8_run utf8_init b'"
    by (simp only: b utf8_run_append utf8_ascii_prefix [OF a])
  then show sb: "strip_bom (utf8_run utf8_init b) = utf8_run utf8_init b"
    by (simp add: strip_bom_def)
  then have "decode b = concat (map utf16 (utf8_run utf8_init b))"
    by (simp only: decode_def)
  then have "decode b = concat (map utf16 (map of_char ''data:'')) @ concat (map utf16 (utf8_run utf8_init b'))"
    by (simp only: run map_append concat_append)
  then have "decode b = ascii ''data:'' @ concat (map utf16 (utf8_run utf8_init b'))"
    by (simp only: concat_utf16_chars ascii_def)
  then show "\<exists>t. decode b = ascii ''data:'' @ t" by blast
qed

lemma decode_lf_suffix:
  assumes "ends_with_lf a"
  shows "\<exists>t. decode a = t @ [0x0A]"
    and "utf8_run utf8_init (a @ b) = utf8_run utf8_init a @ utf8_run utf8_init b"
    and "utf8_run utf8_init a \<noteq> []"
proof -
  from assms obtain a' where a: "a = a' @ [0x0A]"
    by (auto simp add: ends_with_lf_def dest: append_butlast_last_id [symmetric])
  from out_lf [OF good_init, of a'] obtain xs where o: "utf8_out utf8_init a = xs @ [0x0A]"
    using a by blast
  have af: "utf8_after utf8_init a = utf8_init" using a after_lf [OF good_init] by simp
  have "bytes_needed utf8_init = 0" by (simp add: utf8_init_def)
  then have run: "utf8_run utf8_init a = xs @ [0x0A]"
    by (simp add: utf8_run_split o af)
  then show "utf8_run utf8_init a \<noteq> []" by simp
  from strip_bom_snoc_lf [of xs] obtain ys where "strip_bom (xs @ [0x0A]) = ys @ [0x0A]" by blast
  with run have "decode a = concat (map utf16 ys) @ [0x0A]"
    by (simp add: decode_def utf16_lf)
  then show "\<exists>t. decode a = t @ [0x0A]" by blast
  show "utf8_run utf8_init (a @ b) = utf8_run utf8_init a @ utf8_run utf8_init b"
    by (simp add: utf8_run_append af run o)
qed

lemma decode_append_aligned:
  assumes "ends_with_lf a" and "starts_with_data b"
  shows "decode (a @ b) = decode a @ decode b"
proof -
  from decode_lf_suffix(2,3) [OF assms(1)] decode_data_prefix(2) [OF assms(2)]
  show ?thesis
    by (simp add: decode_def strip_bom_append)
qed


lemma strip_prefix_append:
  assumes "\<exists>c\<in>set u. c \<notin> set p"
  shows "strip_prefix p (u @ v) = (case strip_prefix p u of None \<Rightarrow> None | Some r \<Rightarrow> Some (r @ v))"
  using assms
proof (induction p u rule: strip_prefix.induct)
  case (1 s)
  then show ?case by simp
next
  case (2 p ps)
  then show ?case by simp
next
  case (3 p ps c cs)
  show ?case
  proof (cases "p = c")
    case True
    with 3(2) have "\<exists>c\<in>set cs. c \<notin> set ps" by auto
    with 3(1) True show ?thesis by simp
  next
    case False
    then show ?thesis by simp
  qed
qed

lemma upto_rbrace_append:
  assumes "s \<noteq> []" and "\<not> is_dot (last s)"
  shows "upto_rbrace (s @ v) = (case upto_rbrace s of None \<Rightarrow> None | Some (b, r) \<Rightarrow> Some (b, r @ v))"
  using assms
proof (induction s)
  case Nil
  then show ?case by simp
next
  case (Cons x xs)
  show ?case
  proof (cases "x = 0x7D")
    case True
    then show ?thesis by simp
  next
    case nb: False
    show ?thesis
    proof (cases "is_dot x")
      case False
      with nb show ?thesis by simp
    next
      case True
      with Cons(3) have xs: "xs \<noteq> []" by auto
      with Cons(3) have "\<not> is_dot (last xs)" by simp
      from Cons(1) [OF xs this] nb True show ?thesis
        by (simp split: option.splits)
    qed
  qed
qed

lemma lf_facts: "is_space 0x0A" "\<not> is_dot 0x0A" "0x0A \<notin> set (ascii ''data:'')"
  by (simp_all add: is_space_def is_dot_def ascii_def)

lemma match_here_append:
  assumes u: "u \<noteq> []" "last u = 0x0A" and v: "strip_prefix (ascii ''data:'') v \<noteq> None"
  shows "match_here (u @ v) = (case match_here u of None \<Rightarrow> None | Some (g, r) \<Rightarrow> Some (g, r @ v))"
proof -
  from u have "0x0A \<in> set u" using last_in_set by metis
  with lf_facts(3) have "\<exists>c\<in>set u. c \<notin> set (ascii ''data:'')" by blast
  note sp = strip_prefix_append [OF this, of v]
  from v obtain v' where v': "v = ascii ''data:'' @ v'" by (auto simp add: strip_prefix_Some)
  then obtain v'' where vd: "v = 0x64 # 0x61 # v''" by (simp add: ascii_def)
  have nsp: "\<not> is_space 0x64" by (simp add: is_space_def)
  show ?thesis
  proof (cases "strip_prefix (ascii ''data:'') u")
    case None
    with sp show ?thesis by (simp add: match_here_def)
  next
    case (Some s1)
    then have us: "u = ascii ''data:'' @ s1" by (simp add: strip_prefix_Some)
    with u have s1: "s1 \<noteq> []" "last s1 = 0x0A" by (auto simp add: ascii_def split: if_splits)
    show ?thesis
    proof (cases "\<forall>x\<in>set s1. is_space x")
      case True
      then have d1: "dropWhile is_space s1 = []" and d2: "dropWhile is_space (s1 @ v) = v"
        using vd nsp by (simp_all add: dropWhile_append)
      have 1: "match_here u = None"
        unfolding match_here_def Some option.case d1 by simp
      have "match_here (u @ v) = (case v of c # d # s3 \<Rightarrow>
               if c = 0x7B \<and> is_dot d then
                 (case upto_rbrace s3 of None \<Rightarrow> None
                  | Some (b, r) \<Rightarrow> Some (Some (c # d # b @ [0x7D]), skip_nl r))
               else None
           | _ \<Rightarrow> None)"
        unfolding match_here_def sp Some option.case d2 ..
      then have 2: "match_here (u @ v) = None" by (simp add: vd)
      from 1 2 show ?thesis by simp
    next
      case False
      then have dw: "dropWhile is_space (s1 @ v) = dropWhile is_space s1 @ v"
        by (auto simp add: dropWhile_append)
      define w where "w = dropWhile is_space s1"
      from False have wn: "w \<noteq> []" by (auto simp add: w_def)
      have "s1 = takeWhile is_space s1 @ w" by (simp add: w_def)
      with wn s1 have lw: "last w = 0x0A" by (metis last_appendR)
      from wn have hw: "\<not> is_space (hd w)" unfolding w_def by (simp add: hd_dropWhile)
      from wn obtain c w' where w: "w = c # w'" by (cases w) auto
      with hw have c: "\<not> is_space c" by simp
      have "w' \<noteq> []"
      proof
        assume "w' = []"
        with w lw have "c = 0x0A" by simp
        with c lf_facts(1) show False by simp
      qed
      then obtain d s3 where w': "w' = d # s3" by (cases w') auto
      have "match_here u = (case w of c # d # s3 \<Rightarrow>
               if c = 0x7B \<and> is_dot d then
                 (case upto_rbrace s3 of None \<Rightarrow> None
                  | Some (b, r) \<Rightarrow> Some (Some (c # d # b @ [0x7D]), skip_nl r))
               else None
           | _ \<Rightarrow> None)"
        unfolding match_here_def Some option.case w_def ..
      then have e1: "match_here u =
          (if c = 0x7B \<and> is_dot d then
             (case upto_rbrace s3 of None \<Rightarrow> None
              | Some (b, r) \<Rightarrow> Some (Some (c # d # b @ [0x7D]), skip_nl r))
           else None)"
        by (simp only: w w' list.case)
      have "match_here (u @ v) = (case w @ v of c # d # s3 \<Rightarrow>
               if c = 0x7B \<and> is_dot d then
                 (case upto_rbrace s3 of None \<Rightarrow> None
                  | Some (b, r) \<Rightarrow> Some (Some (c # d # b @ [0x7D]), skip_nl r))
               else None
           | _ \<Rightarrow> None)"
        unfolding match_here_def sp Some option.case dw w_def ..
      then have e2: "match_here (u @ v) =
          (if c = 0x7B \<and> is_dot d then
             (case upto_rbrace (s3 @ v) of None \<Rightarrow> None
              | Some (b, r) \<Rightarrow> Some (Some (c # d # b @ [0x7D]), skip_nl r))
           else None)"
        by (simp only: w w' list.case append_Cons)
      show ?thesis
      proof (cases "c = 0x7B \<and> is_dot d")
        case False
        with e1 e2 show ?thesis by simp
      next
        case True
        have s3: "s3 \<noteq> []"
        proof
          assume "s3 = []"
          with w w' lw have "d = 0x0A" by simp
          with True lf_facts(2) show False by simp
        qed
        with w w' lw have ls3: "last s3 = 0x0A" by simp
        with lf_facts(2) have nd: "\<not> is_dot (last s3)" by simp
        note ur = upto_rbrace_append [OF s3 nd, of v]
        show ?thesis
        proof (cases "upto_rbrace s3")
          case None
          with e1 e2 ur True show ?thesis by simp
        next
          case (Some br)
          obtain b r where br: "br = (b, r)" by (cases br)
          from Some br have "s3 = b @ 0x7D # r" by (simp add: upto_rbrace_split)
          with ls3 have rn: "r \<noteq> []" by (auto split: if_splits)
          then have "skip_nl (r @ v) = skip_nl r @ v"
            by (cases r) (simp_all add: skip_nl_def)
          with e1 e2 ur True Some br show ?thesis by simp
        qed
      qed
    qed
  qed
qed


text \<open>
  A text that is empty or ends with a line feed.
\<close>

definition nl_ended :: "jstr \<Rightarrow> bool" where
  "nl_ended u \<longleftrightarrow> u = [] \<or> last u = 0x0A"

lemma match_here_Nil: "match_here [] = None"
  by (simp add: match_here_def ascii_def)

lemma exec_append:
  assumes "nl_ended u" and v: "strip_prefix (ascii ''data:'') v \<noteq> None"
  shows "exec (u @ v) = (case exec u of None \<Rightarrow> exec v | Some (g, r) \<Rightarrow> Some (g, r @ v))"
  using assms(1)
proof (induction u)
  case Nil
  then show ?case by (simp add: match_at_eq match_here_Nil)
next
  case (Cons c cs)
  then have l: "last (c # cs) = 0x0A" by (simp add: nl_ended_def)
  then have cs: "nl_ended cs" by (auto simp add: nl_ended_def split: if_splits)
  have m: "match_at ((c # cs) @ v) =
      (case match_at (c # cs) of None \<Rightarrow> None | Some (g, r) \<Rightarrow> Some (g, r @ v))"
    unfolding match_at_eq by (rule match_here_append [OF _ l v]) simp
  show ?case
  proof (cases "match_at (c # cs)")
    case None
    with m have "match_at (c # cs @ v) = None" by simp
    with None Cons.IH [OF cs] show ?thesis by simp
  next
    case (Some gr)
    obtain g r where "gr = (g, r)" by (cases gr)
    with Some m have "match_at (c # cs @ v) = Some (g, r @ v)" "match_at (c # cs) = Some (g, r)"
      by simp_all
    then show ?thesis by simp
  qed
qed

lemma exec_rest_nl_ended:
  assumes "exec u = Some (g, r)" and "nl_ended u"
  shows "nl_ended r"
proof -
  from exec_shape [OF assms(1)] obtain x where "u = x @ r"
    by (metis append.assoc append_Cons)
  with assms(2) show ?thesis by (cases "r = []") (auto simp add: nl_ended_def)
qed

lemma frames_append:
  assumes "nl_ended u" and v: "strip_prefix (ascii ''data:'') v \<noteq> None"
  shows "frames (u @ v) = frames u @ frames v"
  using assms(1)
proof (induction u rule: length_induct)
  case (1 u)
  note ea = exec_append [OF 1(2) v]
  show ?case
  proof (cases "exec u")
    case None
    with ea have e: "exec (u @ v) = exec v" by simp
    have "frames (u @ v) = frames v"
      by (subst frames.simps, subst (2) frames.simps) (simp only: e)
    with None show ?thesis by (simp add: frames_no_match)
  next
    case (Some m)
    obtain g rest where m: "m = (g, rest)" by (cases m)
    with Some exec_group obtain j where g: "g = Some j" by blast
    from Some m g have e: "exec u = Some (Some j, rest)" by simp
    with ea have e2: "exec (u @ v) = Some (Some j, rest @ v)" by simp
    from exec_shorter(1) [OF e] have sh: "length rest < length u" .
    from exec_rest_nl_ended [OF e 1(2)] have "nl_ended rest" .
    with 1(1) sh have "frames (rest @ v) = frames rest @ frames v" by blast
    then show ?thesis by (simp add: frames_match [OF e] frames_match [OF e2])
  qed
qed

fun aligned :: "byte list list \<Rightarrow> bool" where
  \<comment> \<open>every boundary between two chunks has a line feed before it and \<^verbatim>\<open>data:\<close>
      after it\<close>
  "aligned [] = True"
| "aligned [c] = True"
| "aligned (a # b # cs) = (ends_with_lf a \<and> starts_with_data b \<and> aligned (b # cs))"

lemma starts_with_data_append: "starts_with_data b \<Longrightarrow> starts_with_data (b @ c)"
  by (auto simp add: starts_with_data_def strip_prefix_Some)

lemma chunk_pair:
  assumes "ends_with_lf a" and "starts_with_data b"
  shows "frames (decode (a @ b)) = frames (decode a) @ frames (decode b)"
proof -
  from decode_lf_suffix(1) [OF assms(1)] have "nl_ended (decode a)"
    by (auto simp add: nl_ended_def)
  moreover from decode_data_prefix(1) [OF assms(2)]
  have "strip_prefix (ascii ''data:'') (decode b) \<noteq> None"
    by (auto simp add: strip_prefix_Some)
  ultimately show ?thesis
    by (simp add: decode_append_aligned [OF assms] frames_append)
qed

lemma aligned_frames:
  "aligned chunks \<Longrightarrow> frames (decode (concat chunks)) = concat (map (\<lambda>v. frames (decode v)) chunks)"
proof (induction chunks rule: aligned.induct)
  case 1
  have "decode [] = []" by (simp add: decode_def strip_bom_def utf8_init_def)
  moreover have "frames [] = []" by (simp add: frames_no_match match_at_eq match_here_Nil)
  ultimately show ?case by simp
next
  case (2 c)
  then show ?case by simp
next
  case (3 a b cs)
  then have a: "ends_with_lf a" and b: "starts_with_data b" and r: "aligned (b # cs)"
    by simp_all
  from b have "starts_with_data (concat (b # cs))"
    by (simp add: starts_with_data_append)
  from chunk_pair [OF a this] 3(1) [OF r] show ?case by simp
qed

text \<open>
  Claim C1, as amended. When every chunk boundary falls right after a line feed and right
  before a \<^verbatim>\<open>data:\<close> token, feeding the chunks one after the other shows the same as
  feeding all the bytes as one chunk. (Other boundaries can change the result: a frame
  split between two chunks is lost, as the counterexample shows.)
\<close>

theorem aligned_partition_invariant:
  assumes "aligned chunks"
  shows "getAiInsights ns (stream_ok chunks) = getAiInsights ns (stream_ok [concat chunks])"
proof -
  have "concat (map (\<lambda>v. concat (deltas ns (frames (decode v)))) chunks) =
      concat (deltas ns (concat (map (\<lambda>v. frames (decode v)) chunks)))"
    by (simp add: deltas_concat comp_def)
  with aligned_frames [OF assms] show ?thesis
    by (simp add: getAiInsights_stream_ok)
qed

theorem aligned_partition_invariant_witness:
  "aligned [ascii_bytes ''data: {a}\<newline>'', ascii_bytes ''data: {b}\<newline>'']
   \<and> getAiInsights id (stream_ok [ascii_bytes ''data: {a}\<newline>'', ascii_bytes ''data: {b}\<newline>'']) =
     getAiInsights id (stream_ok [concat [ascii_bytes ''data: {a}\<newline>'', ascii_bytes ''data: {b}\<newline>'']])"
proof -
  have a: "aligned [ascii_bytes ''data: {a}\<newline>'', ascii_bytes ''data: {b}\<newline>'']"
    by (simp add: ends_with_lf_def starts_with_data_def ascii_bytes_def)
  from aligned_partition_invariant [OF a, of id] a show ?thesis by blast
qed

theorem split_frame_counterexample:
  "ascii_bytes ''data: {\"choices\":[{\"delta\":{\"content\":\"Hel'' @ ascii_bytes ''lo\"}}]}\<newline>'' =
     ascii_bytes ''data: {\"choices\":[{\"delta\":{\"content\":\"Hello\"}}]}\<newline>''
   \<and> getAiInsights id (stream_ok [ascii_bytes ''data: {\"choices\":[{\"delta\":{\"content\":\"Hel'',
                                     ascii_bytes ''lo\"}}]}\<newline>'']) =
       \<lparr>insight = [], loading = False\<rparr>
   \<and> getAiInsights id (stream_ok [ascii_bytes ''data: {\"choices\":[{\"delta\":{\"content\":\"Hello\"}}]}\<newline>'']) =
       \<lparr>insight = ascii ''{\"choices\":[{\"delta\":{\"content\":\"Hello\"}'', loading = False\<rparr>"
proof -
  have c: "ascii_bytes ''data: {\"choices\":[{\"delta\":{\"content\":\"Hel'' @ ascii_bytes ''lo\"}}]}\<newline>'' =
     ascii_bytes ''data: {\"choices\":[{\"delta\":{\"content\":\"Hello\"}}]}\<newline>''"
    by (simp add: ascii_bytes_def)
  have d: "decode (ascii_bytes ''data: {\"choices\":[{\"delta\":{\"content\":\"Hel'') =
     ascii ''data: {\"choices\":[{\"delta\":{\"content\":\"Hel''"
    "decode (ascii_bytes ''lo\"}}]}\<newline>'') = ascii ''lo\"}}]}\<newline>''"
    "decode (ascii_bytes ''data: {\"choices\":[{\"delta\":{\"content\":\"Hello\"}}]}\<newline>'') =
     ascii ''data: {\"choices\":[{\"delta\":{\"content\":\"Hello\"}}]}\<newline>''"
    by (rule decode_ascii, simp add: is_ascii_def)+
  have "0x7D \<notin> set (ascii ''data: {\"choices\":[{\"delta\":{\"content\":\"Hel'')"
    "0x7B \<notin> set (ascii ''lo\"}}]}\<newline>'')"
    by (simp_all add: ascii_def)
  then have f: "frames (ascii ''data: {\"choices\":[{\"delta\":{\"content\":\"Hel'') = []"
    "frames (ascii ''lo\"}}]}\<newline>'') = []"
    by (simp_all add: no_brace_no_match frames_no_match)
  have f3: "frames (ascii ''data: {\"choices\":[{\"delta\":{\"content\":\"Hello\"}}]}\<newline>'') =
     [ascii ''{\"choices\":[{\"delta\":{\"content\":\"Hello\"}'']"
    by code_simp
  have p: "deltas id [ascii ''{\"choices\":[{\"delta\":{\"content\":\"Hello\"}''] =
     [ascii ''{\"choices\":[{\"delta\":{\"content\":\"Hello\"}'']"
    by code_simp
  have 1: "getAiInsights id (stream_ok [ascii_bytes ''data: {\"choices\":[{\"delta\":{\"content\":\"Hel'',
                                     ascii_bytes ''lo\"}}]}\<newline>'']) =
       \<lparr>insight = [], loading = False\<rparr>"
    by (simp add: getAiInsights_stream_ok d f) (simp add: deltas_def)
  have 2: "getAiInsights id (stream_ok [ascii_bytes ''data: {\"choices\":[{\"delta\":{\"content\":\"Hello\"}}]}\<newline>'']) =
       \<lparr>insight = ascii ''{\"choices\":[{\"delta\":{\"content\":\"Hello\"}'', loading = False\<rparr>"
    by (simp add: getAiInsights_stream_ok d f3 p)
  from c 1 2 show ?thesis by blast
qed

end
